theory Spec2Isabelle
  imports Main "HOL-Library.Word"
begin

unbundle bit_operations_syntax

section \<open>Bytes, machine integers and Go strings\<close>

text \<open>
  A Go \<^verbatim>\<open>string\<close> and a \<^verbatim>\<open>[]byte\<close> are both sequences of bytes; keys and
  values are modelled as lists of 8-bit words. \<^verbatim>\<open>uint32\<close> is a 32-bit word, so
  that \<open>+\<close> wraps around as it does in Go.
\<close>

type_synonym byte = "8 word"

type_synonym uint32 = "32 word"

type_synonym bytes = "byte list"

section \<open>Record codec\<close>

text \<open>
  Modelled from the spec: the record codec (\<^verbatim>\<open>headerSize\<close>, \<^verbatim>\<open>encodeKV\<close>,
  \<^verbatim>\<open>decodeHeader\<close>, \<^verbatim>\<open>decodeKV\<close>) is called by \<^verbatim>\<open>DiskStore\<close> but its file is
  not among the sources. The spec fixes the layout: a 12-byte header
  \<^verbatim>\<open>[timestamp(4B) | keySize(4B) | valueSize(4B)]\<close>, all integers in a single fixed
  byte order, followed by the key bytes and then the value bytes. The spec does not
  say which byte order, so the order is a parameter of the codec.
\<close>

datatype byte_order = LittleEndian | BigEndian

definition headerSize :: nat where
  "headerSize = 12"

definition le_bytes :: "uint32 \<Rightarrow> bytes" where
  "le_bytes x = [ucast x, ucast (drop_bit 8 x), ucast (drop_bit 16 x), ucast (drop_bit 24 x)]"

definition le_word :: "bytes \<Rightarrow> uint32" where
  "le_word bs =
     ucast (bs ! 0) OR push_bit 8 (ucast (bs ! 1)) OR
     push_bit 16 (ucast (bs ! 2)) OR push_bit 24 (ucast (bs ! 3))"

definition put_uint32 :: "byte_order \<Rightarrow> uint32 \<Rightarrow> bytes" where
  "put_uint32 bo x = (case bo of LittleEndian \<Rightarrow> le_bytes x | BigEndian \<Rightarrow> rev (le_bytes x))"

definition get_uint32 :: "byte_order \<Rightarrow> bytes \<Rightarrow> uint32" where
  "get_uint32 bo bs = (case bo of LittleEndian \<Rightarrow> le_word bs | BigEndian \<Rightarrow> le_word (rev bs))"

text \<open>
  Modelled from the spec: \<open>encodeRecord(timestamp, key, value) \<rightarrow> (totalSize, bytes)\<close>
  builds the header from \<open>timestamp\<close>, \<open>len(key)\<close>, \<open>len(value)\<close> and concatenates
  header, key and value. The total size is a Go \<^verbatim>\<open>int\<close> (the caller converts it with
  \<^verbatim>\<open>uint32(totalSize)\<close>), modelled as a natural number; the two length fields are
  converted to 32 bits, which truncates a length of \<open>2^32\<close> or more.
\<close>

definition encodeKV :: "byte_order \<Rightarrow> uint32 \<Rightarrow> bytes \<Rightarrow> bytes \<Rightarrow> nat \<times> bytes" where
  "encodeKV bo ts key val =
     (headerSize + length key + length val,
      put_uint32 bo ts @ put_uint32 bo (of_nat (length key)) @
      put_uint32 bo (of_nat (length val)) @ key @ val)"

text \<open>
  Modelled from the spec: \<open>decodeHeader(bytes[headerSize]) \<rightarrow> (timestamp, keySize,
  valueSize)\<close>, a pure function of a header-sized buffer.
\<close>

definition decodeHeader :: "byte_order \<Rightarrow> bytes \<Rightarrow> uint32 \<times> uint32 \<times> uint32" where
  "decodeHeader bo buf =
     (get_uint32 bo (take 4 buf), get_uint32 bo (take 4 (drop 4 buf)),
      get_uint32 bo (take 4 (drop 8 buf)))"

text \<open>
  Modelled from the spec: \<open>decodeRecord(bytes[totalSize]) \<rightarrow> (timestamp, key, value)\<close>
  slices the buffer using the sizes of its own embedded header. A Go slice expression
  out of range is a run-time panic; the spec is silent on a buffer shorter than its
  header demands, and the model returns \<open>None\<close> there rather than some shorter slice.
\<close>

definition decodeKV :: "byte_order \<Rightarrow> bytes \<Rightarrow> (uint32 \<times> bytes \<times> bytes) option" where
  "decodeKV bo data =
     (if length data < headerSize then None
      else
        (let (timestamp, keySize, valueSize) = decodeHeader bo data
         in if length data < headerSize + unat keySize + unat valueSize then None
            else Some (timestamp,
                       take (unat keySize) (drop headerSize data),
                       take (unat valueSize) (drop (headerSize + unat keySize) data))))"

section \<open>The operating system as the store sees it\<close>

text \<open>
  The store reaches the outside through \<^verbatim>\<open>os.Stat\<close>, \<^verbatim>\<open>os.Open\<close>, \<^verbatim>\<open>os.OpenFile\<close>
  and the \<^verbatim>\<open>Read\<close>, \<^verbatim>\<open>Write\<close>, \<^verbatim>\<open>Seek\<close> and \<^verbatim>\<open>Close\<close> methods of \<^verbatim>\<open>*os.File\<close>. The
  model keeps what decides their results: the regular files by name, with their bytes
  and whether they may be read and written, whether a new file may be created, and
  how large a file may grow before a write fails for lack of space. Printing to the
  standard output is not modelled.
\<close>

record fnode =
  bytes :: bytes
  readable :: bool
  writable :: bool

record world =
  files :: "string \<rightharpoonup> fnode"
  can_create :: bool
  capacity :: nat

text \<open>An open \<^verbatim>\<open>*os.File\<close>: the file it names, its offset, and whether it is still open.\<close>

record handle =
  hpath :: string
  hpos :: nat
  hopen :: bool

datatype oserror = EOF | ErrInvalid | ErrClosed | ErrNotExist | ErrPermission | ErrNoSpace

text \<open>
  A call of \<^verbatim>\<open>os.Exit\<close> or a run-time panic ends the process: the caller gets
  nothing back, and the model does not follow the files any further.
\<close>

datatype exit = OsExit nat | Panic

definition isFileExists :: "world \<Rightarrow> string \<Rightarrow> bool" where
  "isFileExists w fileName = (files w fileName \<noteq> None)"

text \<open>The bytes of the file behind a path, none when there is no such file.\<close>

definition bytes_at :: "world \<Rightarrow> string \<Rightarrow> bytes" where
  "bytes_at w fileName = (case files w fileName of None \<Rightarrow> [] | Some node \<Rightarrow> bytes node)"

text \<open>\<^verbatim>\<open>os.Open\<close>: a read-only handle at offset 0.\<close>

definition os_Open :: "world \<Rightarrow> string \<Rightarrow> oserror + handle" where
  "os_Open w fileName =
     (case files w fileName of
        None \<Rightarrow> Inl ErrNotExist
      | Some node \<Rightarrow>
          if readable node then Inr \<lparr>hpath = fileName, hpos = 0, hopen = True\<rparr>
          else Inl ErrPermission)"

text \<open>\<^verbatim>\<open>os.OpenFile(fileName, os.O_APPEND|os.O_RDWR|os.O_CREATE, 0666)\<close>.\<close>

definition os_OpenFile :: "world \<Rightarrow> string \<Rightarrow> oserror + world \<times> handle" where
  "os_OpenFile w fileName =
     (case files w fileName of
        None \<Rightarrow>
          if can_create w
          then Inr (w\<lparr>files := (files w)(fileName \<mapsto> \<lparr>bytes = [], readable = True, writable = True\<rparr>)\<rparr>,
                    \<lparr>hpath = fileName, hpos = 0, hopen = True\<rparr>)
          else Inl ErrPermission
      | Some node \<Rightarrow>
          if readable node \<and> writable node
          then Inr (w, \<lparr>hpath = fileName, hpos = 0, hopen = True\<rparr>)
          else Inl ErrPermission)"

text \<open>
  \<^verbatim>\<open>file.Read(buffer)\<close> on a buffer fresh from \<^verbatim>\<open>make([]byte, len)\<close>: the result is
  the buffer after the call, the number of bytes read and the error. A buffer of
  length 0 reads nothing and reports no error; at the end of the file a longer buffer
  gets \<^verbatim>\<open>io.EOF\<close>; otherwise the bytes the file still holds are copied, at most
  \<open>len\<close> of them, and the rest of the buffer keeps the zeros \<^verbatim>\<open>make\<close> put there. A
  read of fewer bytes than asked for is not an error, and the callers in the store
  drop the count. One call does not read more than \<open>maxRW\<close> bytes, however long the
  buffer is: Go's \<^verbatim>\<open>os.File\<close> cuts the buffer of a single read at 1 GiB, which is
  below what the kernel hands over in one call. The model takes the file to be a
  regular file, on which a read of at most that many bytes returns every byte asked
  for that the file still holds, and on which a read fails only at the end of the
  file. \<^verbatim>\<open>Write\<close> has no such limit: it goes on until all the bytes are written.
\<close>

definition maxRW :: nat where
  "maxRW = 2 ^ 30"

definition read_at :: "bytes \<Rightarrow> nat \<Rightarrow> nat \<Rightarrow> bytes \<times> nat \<times> oserror option" where
  "read_at content pos len =
     (if len = 0 then ([], 0, None)
      else
        (let n = min (min len maxRW) (length content - pos)
         in if n = 0 then (replicate len 0, 0, Some EOF)
            else (take n (drop pos content) @ replicate (len - n) 0, n, None)))"

definition file_Read :: "world \<Rightarrow> handle option \<Rightarrow> nat \<Rightarrow> handle option \<times> bytes \<times> nat \<times> oserror option" where
  "file_Read w f len =
     (case f of
        None \<Rightarrow> (f, replicate len 0, 0, Some ErrInvalid)
      | Some h \<Rightarrow>
          if \<not> hopen h then (f, replicate len 0, 0, Some ErrClosed)
          else
            (case files w (hpath h) of
               None \<Rightarrow> (f, replicate len 0, 0, Some ErrInvalid)
             | Some node \<Rightarrow>
                 (let (buffer, n, err) = read_at (bytes node) (hpos h) len
                  in (Some (h\<lparr>hpos := hpos h + n\<rparr>), buffer, n, err))))"

text \<open>\<^verbatim>\<open>file.Seek(offset, io.SeekStart)\<close> with an offset that is never negative.\<close>

definition file_Seek :: "handle option \<Rightarrow> nat \<Rightarrow> oserror + handle option" where
  "file_Seek f offset =
     (case f of
        None \<Rightarrow> Inl ErrInvalid
      | Some h \<Rightarrow> if hopen h then Inr (Some (h\<lparr>hpos := offset\<rparr>)) else Inl ErrClosed)"

text \<open>
  \<^verbatim>\<open>file.Write(data)\<close> on a handle opened with \<^verbatim>\<open>O_APPEND\<close>: the bytes go to the end
  of the file whatever the offset is, and the offset ends behind them. The write
  fails when the file would outgrow the space there is.
\<close>

definition file_Write :: "world \<Rightarrow> handle option \<Rightarrow> bytes \<Rightarrow> oserror + world \<times> handle option" where
  "file_Write w f data =
     (case f of
        None \<Rightarrow> Inl ErrInvalid
      | Some h \<Rightarrow>
          if \<not> hopen h then Inl ErrClosed
          else
            (case files w (hpath h) of
               None \<Rightarrow> Inl ErrInvalid
             | Some node \<Rightarrow>
                 if capacity w < length (bytes node) + length data then Inl ErrNoSpace
                 else Inr (w\<lparr>files := (files w)(hpath h \<mapsto> node\<lparr>bytes := bytes node @ data\<rparr>)\<rparr>,
                           Some (h\<lparr>hpos := length (bytes node) + length data\<rparr>))))"

definition file_Close :: "handle option \<Rightarrow> oserror + handle option" where
  "file_Close f =
     (case f of
        None \<Rightarrow> Inl ErrInvalid
      | Some h \<Rightarrow> if hopen h then Inr (Some (h\<lparr>hopen := False\<rparr>)) else Inl ErrClosed)"

section \<open>The disk store\<close>

text \<open>
  Modelled from the spec: the declaration of \<^verbatim>\<open>KeyEntry\<close> is not among the sources.
  \<^verbatim>\<open>DiskStore.Set\<close> and \<^verbatim>\<open>DiskStore.LoadKeys\<close> build it from three \<^verbatim>\<open>uint32\<close> values
  under the field names used here.
\<close>

record KeyEntry =
  timestamp :: uint32
  writeOffSet :: uint32
  totalSize :: uint32

record DiskStore =
  "file" :: "handle option"
  writePos :: uint32
  KeyDir :: "bytes \<rightharpoonup> KeyEntry"

text \<open>
  The loop of \<^verbatim>\<open>LoadKeys\<close>, one call for each iteration, on the bytes of the file and
  the offset of the handle that \<^verbatim>\<open>LoadKeys\<close> opened. Each \<^verbatim>\<open>break\<close> returns the store
  as it is then.
\<close>

function LoadKeys_loop :: "byte_order \<Rightarrow> bytes \<Rightarrow> nat \<Rightarrow> DiskStore \<Rightarrow> DiskStore" where
  "LoadKeys_loop bo content pos d =
     (case read_at content pos headerSize of
        (buffer, n, Some err) \<Rightarrow> d
      | (buffer, n, None) \<Rightarrow>
          (let (timestamp, keySize, valueSize) = decodeHeader bo buffer
           in case read_at content (pos + n) (unat keySize) of
                (key, nk, Some err) \<Rightarrow> d
              | (key, nk, None) \<Rightarrow>
                  (case read_at content (pos + n + nk) (unat valueSize) of
                     (val, nv, Some err) \<Rightarrow> d
                   | (val, nv, None) \<Rightarrow>
                       (let totalSize = of_nat headerSize + keySize + valueSize
                        in LoadKeys_loop bo content (pos + n + nk + nv)
                             (d\<lparr>KeyDir := (KeyDir d)(key \<mapsto>
                                   \<lparr>timestamp = timestamp, writeOffSet = writePos d,
                                    totalSize = totalSize\<rparr>),
                                writePos := writePos d + totalSize\<rparr>)))))"
  by pat_completeness auto

termination
proof (relation "measure (\<lambda>(bo, content, pos, d). length content - pos)", goal_cases)
  case 1
  show ?case by simp
next
  case prems: 2
  have progress: "0 < n \<and> pos < length content"
    if "(buffer, n, None) = read_at content pos headerSize"
    for buffer :: bytes and n pos :: nat and content :: bytes
    using that by (auto simp add: read_at_def headerSize_def maxRW_def Let_def split: if_splits)
  from prems show ?case
    by (auto dest!: progress)
qed

declare LoadKeys_loop.simps [simp del]

text \<open>
  \<^verbatim>\<open>LoadKeys\<close> opens the file for itself; a failure there ends the process with
  status 1. It returns nothing: whatever stops the loop, the caller goes on with the
  store as the loop left it.
\<close>

definition LoadKeys :: "byte_order \<Rightarrow> string \<Rightarrow> world \<Rightarrow> DiskStore \<Rightarrow> exit + DiskStore" where
  "LoadKeys bo fileName w d =
     (case os_Open w fileName of
        Inl err \<Rightarrow> Inl (OsExit 1)
      | Inr h \<Rightarrow> Inr (LoadKeys_loop bo (bytes_at w (hpath h)) (hpos h) d))"

text \<open>
  \<^verbatim>\<open>NewDiskStore\<close> returns a pair of a store and an error; on an error of
  \<^verbatim>\<open>os.OpenFile\<close> the store is the empty \<^verbatim>\<open>&DiskStore{}\<close>.
\<close>

definition emptyDiskStore :: DiskStore where
  "emptyDiskStore = \<lparr>file = None, writePos = 0, KeyDir = Map.empty\<rparr>"

definition NewDiskStore ::
  "byte_order \<Rightarrow> string \<Rightarrow> world \<Rightarrow> exit + world \<times> DiskStore \<times> oserror option" where
  "NewDiskStore bo fileName w =
     (let ds = \<lparr>file = None, writePos = 0, KeyDir = Map.empty\<rparr>
      in case (if isFileExists w fileName then LoadKeys bo fileName w ds else Inr ds) of
           Inl e \<Rightarrow> Inl e
         | Inr ds' \<Rightarrow>
             (case os_OpenFile w fileName of
                Inl err \<Rightarrow> Inr (w, emptyDiskStore, Some err)
              | Inr (w', h) \<Rightarrow> Inr (w', ds'\<lparr>file := Some h\<rparr>, None)))"

text \<open>
  \<^verbatim>\<open>Get\<close> returns the value and leaves the store with the offset of its file moved;
  it does not write to the file. A failed seek or read ends the process with status 1.
\<close>

definition Get :: "byte_order \<Rightarrow> bytes \<Rightarrow> world \<Rightarrow> DiskStore \<Rightarrow> exit + bytes \<times> DiskStore" where
  "Get bo key w d =
     (case KeyDir d key of
        None \<Rightarrow> Inr ([], d)
      | Some keyEntry \<Rightarrow>
          (case file_Seek (file d) (unat (writeOffSet keyEntry)) of
             Inl err \<Rightarrow> Inl (OsExit 1)
           | Inr f \<Rightarrow>
               (case file_Read w f (unat (totalSize keyEntry)) of
                  (f', buffer, n, Some err) \<Rightarrow> Inl (OsExit 1)
                | (f', buffer, n, None) \<Rightarrow>
                    (case decodeKV bo buffer of
                       None \<Rightarrow> Inl Panic
                     | Some (ts, k, val) \<Rightarrow> Inr (val, d\<lparr>file := f'\<rparr>)))))"

text \<open>
  \<^verbatim>\<open>Set\<close> takes the time of the call, \<^verbatim>\<open>uint32(time.Now().Unix())\<close>, as the argument
  \<open>now\<close>. A failed write ends the process with status 1.
\<close>

definition Set :: "byte_order \<Rightarrow> uint32 \<Rightarrow> bytes \<Rightarrow> bytes \<Rightarrow> world \<Rightarrow> DiskStore \<Rightarrow> exit + world \<times> DiskStore" where
  "Set bo now key val w d =
     (let timestamp = now;
          (totalSize, data) = encodeKV bo timestamp key val
      in case file_Write w (file d) data of
           Inl err \<Rightarrow> Inl (OsExit 1)
         | Inr (w', f') \<Rightarrow>
             Inr (w', d\<lparr>file := f',
                        KeyDir := (KeyDir d)(key \<mapsto>
                          \<lparr>timestamp = timestamp, writeOffSet = writePos d,
                           totalSize = of_nat totalSize\<rparr>),
                        writePos := writePos d + of_nat totalSize\<rparr>))"

definition Close :: "DiskStore \<Rightarrow> exit + DiskStore" where
  "Close d =
     (case file_Close (file d) of
        Inl err \<Rightarrow> Inl (OsExit 1)
      | Inr f' \<Rightarrow> Inr (d\<lparr>file := f'\<rparr>))"

section \<open>Sequences of calls, and the notions the properties speak of\<close>

text \<open>
  A call of \<^verbatim>\<open>Set\<close> is given by the time it happens at, the key and the value. A
  program such as \<^verbatim>\<open>main\<close> calls \<^verbatim>\<open>Set\<close> several times in a row on the same store;
  the first call that ends the process ends the run.
\<close>

type_synonym setcall = "uint32 \<times> bytes \<times> bytes"

fun run_sets :: "byte_order \<Rightarrow> setcall list \<Rightarrow> world \<Rightarrow> DiskStore \<Rightarrow> exit + world \<times> DiskStore" where
  "run_sets bo [] w d = Inr (w, d)"
| "run_sets bo ((now, key, val) # calls) w d =
     (case Set bo now key val w d of
        Inl e \<Rightarrow> Inl e
      | Inr (w', d') \<Rightarrow> run_sets bo calls w' d')"

text \<open>The encoded record of a call, and the log that a sequence of calls writes.\<close>

definition record_of :: "byte_order \<Rightarrow> setcall \<Rightarrow> bytes" where
  "record_of bo c = (case c of (now, key, val) \<Rightarrow> snd (encodeKV bo now key val))"

definition log_of :: "byte_order \<Rightarrow> setcall list \<Rightarrow> bytes" where
  "log_of bo calls = concat (map (record_of bo) calls)"

definition record_size :: "setcall \<Rightarrow> nat" where
  "record_size c = (case c of (now, key, val) \<Rightarrow> headerSize + length key + length val)"

text \<open>The bytes of the file that the store has open.\<close>

definition file_bytes :: "world \<Rightarrow> DiskStore \<Rightarrow> bytes option" where
  "file_bytes w d =
     (case file d of
        None \<Rightarrow> None
      | Some h \<Rightarrow> (case files w (hpath h) of None \<Rightarrow> None | Some node \<Rightarrow> Some (bytes node)))"

text \<open>
  An open store whose \<^verbatim>\<open>writePos\<close> is the length of its file: the state that the
  spec describes as ``\<open>writePos\<close>, always equal to current file length''.
\<close>

definition store_ok :: "world \<Rightarrow> DiskStore \<Rightarrow> bool" where
  "store_ok w d =
     (case file d of
        None \<Rightarrow> False
      | Some h \<Rightarrow>
          hopen h \<and>
          (case files w (hpath h) of
             None \<Rightarrow> False
           | Some node \<Rightarrow> unat (writePos d) = length (bytes node)))"

text \<open>
  Every entry of the key directory lies within the first \<^verbatim>\<open>writePos\<close> bytes, the sum
  taken in the natural numbers.
\<close>

definition index_bounds :: "DiskStore \<Rightarrow> bool" where
  "index_bounds d =
     (\<forall>e \<in> ran (KeyDir d). unat (writeOffSet e) + unat (totalSize e) \<le> unat (writePos d))"

text \<open>
  The sum, in the natural numbers, of the \<^verbatim>\<open>totalSize\<close> of every record that the loop
  of \<^verbatim>\<open>LoadKeys\<close> enters into the key directory from the offset \<open>pos\<close> on: what the
  loop adds to \<^verbatim>\<open>writePos\<close> when nothing wraps around.
\<close>

function LoadKeys_span :: "byte_order \<Rightarrow> bytes \<Rightarrow> nat \<Rightarrow> nat" where
  "LoadKeys_span bo content pos =
     (case read_at content pos headerSize of
        (buffer, n, Some err) \<Rightarrow> 0
      | (buffer, n, None) \<Rightarrow>
          (let (timestamp, keySize, valueSize) = decodeHeader bo buffer
           in case read_at content (pos + n) (unat keySize) of
                (key, nk, Some err) \<Rightarrow> 0
              | (key, nk, None) \<Rightarrow>
                  (case read_at content (pos + n + nk) (unat valueSize) of
                     (val, nv, Some err) \<Rightarrow> 0
                   | (val, nv, None) \<Rightarrow>
                       unat (of_nat headerSize + keySize + valueSize :: uint32) +
                       LoadKeys_span bo content (pos + n + nk + nv))))"
  by pat_completeness auto

termination
proof (relation "measure (\<lambda>(bo, content, pos). length content - pos)", goal_cases)
  case 1
  show ?case by simp
next
  case prems: 2
  have progress: "0 < n \<and> pos < length content"
    if "(buffer, n, None) = read_at content pos headerSize"
    for buffer :: bytes and n pos :: nat and content :: bytes
    using that by (auto simp add: read_at_def headerSize_def maxRW_def Let_def split: if_splits)
  from prems show ?case
    by (auto dest!: progress)
qed

declare LoadKeys_span.simps [simp del]

text \<open>
  What a sequence of calls of \<^verbatim>\<open>Set\<close> does to the key directory and to \<^verbatim>\<open>writePos\<close>,
  and what the loop of \<^verbatim>\<open>LoadKeys\<close> does when it reads the records of these calls
  back: each record is entered under its key at the position reached so far.
\<close>

fun replay :: "setcall list \<Rightarrow> (bytes \<rightharpoonup> KeyEntry) \<Rightarrow> uint32 \<Rightarrow> (bytes \<rightharpoonup> KeyEntry) \<times> uint32" where
  "replay [] dir pos = (dir, pos)"
| "replay ((now, key, val) # calls) dir pos =
     replay calls
       (dir(key \<mapsto> \<lparr>timestamp = now, writeOffSet = pos,
                      totalSize = of_nat (headerSize + length key + length val)\<rparr>))
       (pos + of_nat (headerSize + length key + length val))"

text \<open>
  The key and the value are each short enough for one read, and so their lengths fit
  the 32-bit fields of the header as well.
\<close>

definition fits :: "setcall \<Rightarrow> bool" where
  "fits c = (case c of (now, key, val) \<Rightarrow> length key \<le> maxRW \<and> length val \<le> maxRW)"

text \<open>
  One iteration of the loop of \<^verbatim>\<open>LoadKeys\<close> at the offset \<open>pos\<close>: the key, the time
  stamp and the \<^verbatim>\<open>totalSize\<close> of the record it enters and the offset it reaches, or
  nothing when the iteration leaves the loop.
\<close>

definition LoadKeys_step :: "byte_order \<Rightarrow> bytes \<Rightarrow> nat \<Rightarrow> (bytes \<times> uint32 \<times> uint32 \<times> nat) option" where
  "LoadKeys_step bo content pos =
     (case read_at content pos headerSize of
        (buffer, n, Some err) \<Rightarrow> None
      | (buffer, n, None) \<Rightarrow>
          (let (timestamp, keySize, valueSize) = decodeHeader bo buffer
           in case read_at content (pos + n) (unat keySize) of
                (key, nk, Some err) \<Rightarrow> None
              | (key, nk, None) \<Rightarrow>
                  (case read_at content (pos + n + nk) (unat valueSize) of
                     (val, nv, Some err) \<Rightarrow> None
                   | (val, nv, None) \<Rightarrow>
                       Some (key, timestamp, of_nat headerSize + keySize + valueSize,
                             pos + n + nk + nv))))"

section \<open>Small worlds for the examples\<close>

text \<open>
  A world without files; a world with one file that may be read and written; a handle
  that is open on a file at an offset.
\<close>

definition no_files :: "nat \<Rightarrow> world" where
  "no_files cap = \<lparr>files = Map.empty, can_create = True, capacity = cap\<rparr>"

definition one_file :: "string \<Rightarrow> bytes \<Rightarrow> nat \<Rightarrow> world" where
  "one_file name bs cap =
     \<lparr>files = [name \<mapsto> \<lparr>bytes = bs, readable = True, writable = True\<rparr>],
      can_create = True, capacity = cap\<rparr>"

definition opened :: "string \<Rightarrow> nat \<Rightarrow> handle" where
  "opened name pos = \<lparr>hpath = name, hpos = pos, hopen = True\<rparr>"

text \<open>
  The store that \<^verbatim>\<open>NewDiskStore\<close> returns for a path where there was no file.
\<close>

definition fresh_store :: "string \<Rightarrow> DiskStore" where
  "fresh_store name = \<lparr>file = Some (opened name 0), writePos = 0, KeyDir = Map.empty\<rparr>"

section \<open>Programs that use the store\<close>

text \<open>
  The two programs of the sources open a store, call \<^verbatim>\<open>Set\<close> a few times and call
  \<^verbatim>\<open>Get\<close>, ignoring the error of \<^verbatim>\<open>NewDiskStore\<close> as they do; \<open>session\<close> is such a
  program, and its result is what \<^verbatim>\<open>Get\<close> returns. The scenario of the spec goes on:
  it closes the store, opens the same path again and calls \<^verbatim>\<open>Get\<close> on the new store;
  that is \<open>session_reopened\<close>.
\<close>

definition session :: "byte_order \<Rightarrow> string \<Rightarrow> setcall list \<Rightarrow> bytes \<Rightarrow> world \<Rightarrow> exit + bytes" where
  "session bo fileName calls key w =
     (case NewDiskStore bo fileName w of
        Inl e \<Rightarrow> Inl e
      | Inr (w1, store, err) \<Rightarrow>
          (case run_sets bo calls w1 store of
             Inl e \<Rightarrow> Inl e
           | Inr (w2, store2) \<Rightarrow>
               (case Get bo key w2 store2 of
                  Inl e \<Rightarrow> Inl e
                | Inr (val, store3) \<Rightarrow> Inr val)))"

definition session_reopened :: "byte_order \<Rightarrow> string \<Rightarrow> setcall list \<Rightarrow> bytes \<Rightarrow> world \<Rightarrow> exit + bytes" where
  "session_reopened bo fileName calls key w =
     (case NewDiskStore bo fileName w of
        Inl e \<Rightarrow> Inl e
      | Inr (w1, store, err) \<Rightarrow>
          (case run_sets bo calls w1 store of
             Inl e \<Rightarrow> Inl e
           | Inr (w2, store2) \<Rightarrow>
               (case Close store2 of
                  Inl e \<Rightarrow> Inl e
                | Inr closed \<Rightarrow>
                    (case NewDiskStore bo fileName w2 of
                       Inl e \<Rightarrow> Inl e
                     | Inr (w3, store3, err3) \<Rightarrow>
                         (case Get bo key w3 store3 of
                            Inl e \<Rightarrow> Inl e
                          | Inr (val, store4) \<Rightarrow> Inr val)))))"

text \<open>
  A log that reaches four gibibytes: a record of 14 bytes for the key \<open>a\<close>, then four
  records for the key \<open>k\<close> whose values are a gibibyte of \<open>x\<close>, the last of them 66
  bytes shorter, so that the five records have \<open>2^32\<close> bytes together. \<open>gib_store\<close> is
  the store after these five calls on a fresh file.
\<close>

definition gib_value :: bytes where
  "gib_value = replicate (2 ^ 30) 120"

definition gib_tail :: bytes where
  "gib_tail = replicate (2 ^ 30 - 66) 120"

definition gib_rest :: "setcall list" where
  "gib_rest = [(2, [107], gib_value), (3, [107], gib_value), (4, [107], gib_value), (5, [107], gib_tail)]"

definition gib_calls :: "setcall list" where
  "gib_calls = (1, [97], [121]) # gib_rest"

definition gib_store :: DiskStore where
  "gib_store =
     \<lparr>file = Some (opened ''books.db'' 4294967296), writePos = 0,
      KeyDir = [[97] \<mapsto> \<lparr>timestamp = 1, writeOffSet = 0, totalSize = 14\<rparr>,
                [107] \<mapsto> \<lparr>timestamp = 5, writeOffSet = 3221225525, totalSize = 1073741771\<rparr>]\<rparr>"

section \<open>The codec\<close>

lemma le_word_le_bytes: "le_word (le_bytes x) = x"
proof (rule bit_word_eqI)
  fix n
  assume "n < LENGTH(32)"
  then consider "n < 8" | "8 \<le> n" "n < 16" | "16 \<le> n" "n < 24" | "24 \<le> n" "n < 32"
    by fastforce
  then show "bit (le_word (le_bytes x)) n = bit x n"
    by cases (auto simp add: le_word_def le_bytes_def bit_simps)
qed

lemma length_put_uint32: "length (put_uint32 bo x) = 4"
  by (cases bo) (simp_all add: put_uint32_def le_bytes_def)

lemma get_put_uint32: "get_uint32 bo (put_uint32 bo x) = x"
  by (cases bo) (simp_all add: get_uint32_def put_uint32_def le_word_le_bytes)

lemma decodeHeader_header:
  "decodeHeader bo (put_uint32 bo a @ put_uint32 bo b @ put_uint32 bo c @ rest) = (a, b, c)"
  by (simp add: decodeHeader_def length_put_uint32 get_put_uint32)

lemma decodeHeader_only:
  "decodeHeader bo (put_uint32 bo a @ put_uint32 bo b @ put_uint32 bo c) = (a, b, c)"
  using decodeHeader_header [of bo a b c "[]"] by simp

lemma unat_of_nat32: "n < 2 ^ 32 \<Longrightarrow> unat (of_nat n :: uint32) = n"
  by (simp add: unat_of_nat)

lemma unat_add32:
  assumes "unat a + unat b < 2 ^ 32"
  shows "unat (a + b :: uint32) = unat a + unat b"
proof -
  from assms have "unat a + unat b < 2 ^ LENGTH(32)"
    by simp
  then show ?thesis
    by (simp only: unat_add_lem)
qed

lemma unat_add_of_nat:
  assumes "unat a + n < 2 ^ 32"
  shows "unat (a + of_nat n :: uint32) = unat a + n"
proof -
  from assms have n: "unat (of_nat n :: uint32) = n"
    by (simp add: unat_of_nat32)
  with assms have "unat a + unat (of_nat n :: uint32) < 2 ^ LENGTH(32)"
    by simp
  then have "unat (a + of_nat n) = unat a + unat (of_nat n :: uint32)"
    by (simp only: unat_add_lem)
  with n show ?thesis by simp
qed

lemma length_encodeKV:
  "length (snd (encodeKV bo ts key val)) = headerSize + length key + length val"
  by (simp add: encodeKV_def length_put_uint32 headerSize_def)

lemma fst_encodeKV: "fst (encodeKV bo ts key val) = headerSize + length key + length val"
  by (simp add: encodeKV_def)

lemma decodeKV_encodeKV:
  assumes "length key < 2 ^ 32" and "length val < 2 ^ 32"
  shows "decodeKV bo (snd (encodeKV bo ts key val)) = Some (ts, key, val)"
proof -
  let ?data = "snd (encodeKV bo ts key val)"
  have hdr: "decodeHeader bo ?data = (ts, of_nat (length key), of_nat (length val))"
    by (simp add: encodeKV_def decodeHeader_header)
  have len: "length ?data = headerSize + length key + length val"
    by (rule length_encodeKV)
  have k: "take (length key) (drop headerSize ?data) = key"
    by (simp add: encodeKV_def headerSize_def length_put_uint32)
  have v: "take (length val) (drop (headerSize + length key) ?data) = val"
    by (simp add: encodeKV_def headerSize_def length_put_uint32)
  show ?thesis
    unfolding decodeKV_def using assms
    by (simp add: hdr len k v unat_of_nat32)
qed

section \<open>Reading and writing the file\<close>

lemma maxRW_less: "n \<le> maxRW \<Longrightarrow> n < 2 ^ 32"
  by (simp add: maxRW_def)

lemma read_at_exact:
  "length data \<le> maxRW \<Longrightarrow>
   read_at (pre @ data @ post) (length pre) (length data) = (data, length data, None)"
  by (simp add: read_at_def Let_def min_absorb1)

lemma read_at_end:
  "0 < len \<Longrightarrow> length content \<le> pos \<Longrightarrow> read_at content pos len = (replicate len 0, 0, Some EOF)"
  by (simp add: read_at_def)

lemma read_at_record:
  "read_at (pre @ snd (encodeKV bo now key val) @ post) (length pre) headerSize =
     (put_uint32 bo now @ put_uint32 bo (of_nat (length key)) @ put_uint32 bo (of_nat (length val)),
      headerSize, None)"
  "length key \<le> maxRW \<Longrightarrow>
   read_at (pre @ snd (encodeKV bo now key val) @ post) (length pre + headerSize) (length key) =
     (key, length key, None)"
  "length key \<le> maxRW \<Longrightarrow>
   length val \<le> maxRW \<Longrightarrow>
   read_at (pre @ snd (encodeKV bo now key val) @ post) (length pre + (headerSize + length key)) (length val) =
     (val, length val, None)"
proof -
  let ?hdr = "put_uint32 bo now @ put_uint32 bo (of_nat (length key)) @ put_uint32 bo (of_nat (length val))"
  have len: "length ?hdr = headerSize"
    by (simp add: length_put_uint32 headerSize_def)
  have short: "length ?hdr \<le> maxRW"
    by (simp add: length_put_uint32 maxRW_def)
  have c: "pre @ snd (encodeKV bo now key val) @ post = pre @ ?hdr @ (key @ val @ post)"
    "pre @ snd (encodeKV bo now key val) @ post = (pre @ ?hdr) @ key @ (val @ post)"
    "pre @ snd (encodeKV bo now key val) @ post = (pre @ ?hdr @ key) @ val @ post"
    by (simp_all add: encodeKV_def)
  show "read_at (pre @ snd (encodeKV bo now key val) @ post) (length pre) headerSize = (?hdr, headerSize, None)"
    using read_at_exact [OF short, of pre "key @ val @ post"]
    by (simp add: encodeKV_def length_put_uint32 headerSize_def)
  show "read_at (pre @ snd (encodeKV bo now key val) @ post) (length pre + headerSize) (length key) =
     (key, length key, None)" if "length key \<le> maxRW"
    using read_at_exact [OF that, of "pre @ ?hdr" "val @ post"]
    by (simp add: encodeKV_def length_put_uint32 headerSize_def)
  show "read_at (pre @ snd (encodeKV bo now key val) @ post) (length pre + (headerSize + length key)) (length val) =
     (val, length val, None)" if "length key \<le> maxRW" and "length val \<le> maxRW"
    using read_at_exact [OF that(2), of "pre @ ?hdr @ key" post]
    by (simp add: encodeKV_def length_put_uint32 headerSize_def add.assoc)
qed

lemma length_record_of: "length (record_of bo c) = record_size c"
  by (cases c) (simp add: record_of_def record_size_def length_encodeKV)

lemma length_log_of: "length (log_of bo calls) = sum_list (map record_size calls)"
  by (induction calls) (simp_all add: log_of_def length_record_of)

lemma log_of_Nil: "log_of bo [] = []"
  by (simp add: log_of_def)

lemma log_of_Cons: "log_of bo (c # calls) = record_of bo c @ log_of bo calls"
  by (simp add: log_of_def)

lemma log_of_append: "log_of bo (xs @ ys) = log_of bo xs @ log_of bo ys"
  by (simp add: log_of_def)

lemma record_size_pos: "0 < record_size c"
  by (cases c) (simp add: record_size_def headerSize_def)

lemma log_of_empty: "log_of bo calls = [] \<Longrightarrow> calls = []"
proof (cases calls)
  case Nil
  then show ?thesis by simp
next
  case (Cons c cs)
  assume "log_of bo calls = []"
  then have "length (record_of bo c) = 0"
    by (simp add: Cons log_of_Cons)
  with record_size_pos [of c] show ?thesis
    by (simp add: length_record_of)
qed

section \<open>What the operations do\<close>

lemma Set_Inr_iff:
  "Set bo now key val w d = Inr (w', d') \<longleftrightarrow>
     (\<exists>h node. file d = Some h \<and> hopen h \<and> files w (hpath h) = Some node \<and>
        length (bytes node) + record_size (now, key, val) \<le> capacity w \<and>
        w' = w\<lparr>files := (files w)(hpath h \<mapsto> node\<lparr>bytes := bytes node @ record_of bo (now, key, val)\<rparr>)\<rparr> \<and>
        d' = \<lparr>file = Some (h\<lparr>hpos := length (bytes node) + record_size (now, key, val)\<rparr>),
              writePos = snd (replay [(now, key, val)] (KeyDir d) (writePos d)),
              KeyDir = fst (replay [(now, key, val)] (KeyDir d) (writePos d))\<rparr>)"
  by (auto simp add: Set_def file_Write_def Let_def length_encodeKV fst_encodeKV split_beta
      record_of_def record_size_def
      split: option.splits sum.splits if_splits)

lemma replay_append:
  "replay (xs @ ys) dir pos = replay ys (fst (replay xs dir pos)) (snd (replay xs dir pos))"
proof (induction xs arbitrary: dir pos)
  case Nil
  show ?case by simp
next
  case (Cons c xs)
  obtain now key val where c: "c = (now, key, val)" by (cases c)
  show ?case
    unfolding c append_Cons replay.simps by (rule Cons.IH)
qed

lemma snd_replay: "snd (replay calls dir pos) = pos + of_nat (length (log_of bo calls))"
proof (induction calls arbitrary: dir pos)
  case Nil
  show ?case by (simp add: log_of_Nil)
next
  case (Cons c calls)
  obtain now key val where c: "c = (now, key, val)" by (cases c)
  show ?case
    unfolding c replay.simps Cons.IH
    by (simp add: log_of_Cons length_record_of record_size_def)
qed

lemma replay_last:
  "fst (replay (calls @ [(now, key, val)]) dir pos) key =
     Some \<lparr>timestamp = now, writeOffSet = pos + of_nat (length (log_of bo calls)),
           totalSize = of_nat (record_size (now, key, val))\<rparr>"
  by (simp add: replay_append snd_replay [where bo = bo] record_size_def)

lemma run_sets_append:
  "run_sets bo (xs @ ys) w d =
     (case run_sets bo xs w d of Inl e \<Rightarrow> Inl e | Inr (w', d') \<Rightarrow> run_sets bo ys w' d')"
proof (induction xs arbitrary: w d)
  case Nil
  show ?case by simp
next
  case (Cons c xs)
  obtain now key val where c: "c = (now, key, val)" by (cases c)
  show ?case
    by (simp add: c Cons.IH split: sum.splits)
qed

lemma run_sets_Inr:
  assumes "run_sets bo calls w d = Inr (w', d')" and "file d = Some h"
    and "files w (hpath h) = Some node"
  shows "(\<exists>h'. file d' = Some h' \<and> hpath h' = hpath h \<and> (hopen h \<longrightarrow> hopen h')) \<and>
    files w' = (files w)(hpath h \<mapsto> node\<lparr>bytes := bytes node @ log_of bo calls\<rparr>) \<and>
    can_create w' = can_create w \<and> capacity w' = capacity w \<and>
    KeyDir d' = fst (replay calls (KeyDir d) (writePos d)) \<and>
    writePos d' = snd (replay calls (KeyDir d) (writePos d))"
  using assms
proof (induction calls arbitrary: w d h node)
  case Nil
  then show ?case by (auto simp add: log_of_Nil)
next
  case (Cons c calls)
  obtain now key val where c: "c = (now, key, val)" by (cases c)
  let ?node1 = "node\<lparr>bytes := bytes node @ record_of bo (now, key, val)\<rparr>"
  let ?h1 = "h\<lparr>hpos := length (bytes node) + record_size (now, key, val)\<rparr>"
  from Cons.prems(1) obtain w1 d1 where s: "Set bo now key val w d = Inr (w1, d1)"
    and r: "run_sets bo calls w1 d1 = Inr (w', d')"
    by (auto simp add: c split: sum.splits)
  from s Cons.prems(2,3) have f1: "file d1 = Some ?h1"
    and w1: "files w1 = (files w)(hpath h \<mapsto> ?node1)"
    and ho: "hopen h"
    and cc: "can_create w1 = can_create w" "capacity w1 = capacity w"
    and k: "KeyDir d1 = fst (replay [(now, key, val)] (KeyDir d) (writePos d))"
      "writePos d1 = snd (replay [(now, key, val)] (KeyDir d) (writePos d))"
    by (auto simp add: Set_Inr_iff)
  have w1': "files w1 (hpath ?h1) = Some ?node1"
    by (simp add: w1)
  note IH = Cons.IH [OF r f1 w1']
  from IH have "files w' = (files w1)(hpath ?h1 \<mapsto> ?node1\<lparr>bytes := bytes ?node1 @ log_of bo calls\<rparr>)"
    by blast
  also have "\<dots> = (files w)(hpath h \<mapsto> node\<lparr>bytes := bytes node @ log_of bo (c # calls)\<rparr>)"
    by (simp add: w1 c log_of_Cons)
  finally have files: "files w' = (files w)(hpath h \<mapsto> node\<lparr>bytes := bytes node @ log_of bo (c # calls)\<rparr>)" .
  from IH have "\<exists>h'. file d' = Some h' \<and> hpath h' = hpath ?h1 \<and> (hopen ?h1 \<longrightarrow> hopen h')"
    by blast
  with ho have hd: "\<exists>h'. file d' = Some h' \<and> hpath h' = hpath h \<and> (hopen h \<longrightarrow> hopen h')"
    by simp
  from IH have "can_create w' = can_create w1" and "capacity w' = capacity w1"
    by blast+
  with cc have caps: "can_create w' = can_create w" "capacity w' = capacity w"
    by simp_all
  from IH have "KeyDir d' = fst (replay calls (KeyDir d1) (writePos d1))"
    and "writePos d' = snd (replay calls (KeyDir d1) (writePos d1))"
    by blast+
  then have idx: "KeyDir d' = fst (replay (c # calls) (KeyDir d) (writePos d))"
    "writePos d' = snd (replay (c # calls) (KeyDir d) (writePos d))"
    unfolding k c by simp_all
  from hd files caps idx show ?case
    by blast
qed

lemma Get_hit:
  assumes "KeyDir d key = Some e" and "file d = Some h" and "hopen h"
    and "files w (hpath h) = Some node"
    and "bytes node = pre @ snd (encodeKV bo now k val) @ post"
    and "unat (writeOffSet e) = length pre"
    and "unat (totalSize e) = headerSize + length k + length val"
    and "headerSize + length k + length val \<le> maxRW"
  shows "Get bo key w d =
           Inr (val, d\<lparr>file := Some (h\<lparr>hpos := length pre + (headerSize + length k + length val)\<rparr>)\<rparr>)"
proof -
  let ?rec = "snd (encodeKV bo now k val)"
  have "unat (totalSize e) < 2 ^ 32"
    using unsigned_less [of "totalSize e"] by simp
  with assms(7) have fit: "length k < 2 ^ 32" "length val < 2 ^ 32"
    by simp_all
  have rd: "read_at (bytes node) (length pre) (headerSize + length k + length val) =
      (?rec, headerSize + length k + length val, None)"
    using read_at_exact [of ?rec pre post] assms(8) by (simp add: assms(5) length_encodeKV)
  show ?thesis
    by (simp add: Get_def assms(1-4,6,7) file_Seek_def file_Read_def rd decodeKV_encodeKV [OF fit])
qed

lemma store_okD:
  assumes "store_ok w d" and "file_bytes w d = Some old"
  obtains h node where "file d = Some h" and "hopen h" and "files w (hpath h) = Some node"
    and "bytes node = old" and "unat (writePos d) = length old"
  using assms
  by (auto simp add: store_ok_def file_bytes_def split: option.splits)

lemma Set_store_ok:
  assumes ok: "store_ok w d" and old: "file_bytes w d = Some old"
    and len: "length old + record_size (now, key, val) < 2 ^ 32"
    and set: "Set bo now key val w d = Inr (w', d')"
  shows "store_ok w' d'"
    and "file_bytes w' d' = Some (old @ record_of bo (now, key, val))"
    and "KeyDir d' = (KeyDir d)(key \<mapsto> \<lparr>timestamp = now, writeOffSet = writePos d,
            totalSize = of_nat (record_size (now, key, val))\<rparr>)"
    and "unat (writePos d) = length old"
    and "unat (of_nat (record_size (now, key, val)) :: uint32) = record_size (now, key, val)"
proof -
  from ok old obtain h node where h: "file d = Some h" "hopen h" "files w (hpath h) = Some node"
    "bytes node = old" "unat (writePos d) = length old"
    by (rule store_okD)
  from set h(1,3) have w': "w' = w\<lparr>files := (files w)(hpath h \<mapsto> node\<lparr>bytes := bytes node @ record_of bo (now, key, val)\<rparr>)\<rparr>"
    and d': "d' = \<lparr>file = Some (h\<lparr>hpos := length (bytes node) + record_size (now, key, val)\<rparr>),
              writePos = snd (replay [(now, key, val)] (KeyDir d) (writePos d)),
              KeyDir = fst (replay [(now, key, val)] (KeyDir d) (writePos d))\<rparr>"
    by (auto simp add: Set_Inr_iff)
  have wp: "unat (writePos d + of_nat (record_size (now, key, val))) = length old + record_size (now, key, val)"
    using unat_add_of_nat [of "writePos d" "record_size (now, key, val)"] len h(5) by simp
  show "store_ok w' d'"
    using wp by (simp add: store_ok_def w' d' h length_record_of record_size_def)
  show "file_bytes w' d' = Some (old @ record_of bo (now, key, val))"
    by (simp add: file_bytes_def w' d' h)
  show "KeyDir d' = (KeyDir d)(key \<mapsto> \<lparr>timestamp = now, writeOffSet = writePos d,
            totalSize = of_nat (record_size (now, key, val))\<rparr>)"
    by (simp add: d' record_size_def)
  show "unat (writePos d) = length old" by (rule h(5))
  show "unat (of_nat (record_size (now, key, val)) :: uint32) = record_size (now, key, val)"
    using len by (simp add: unat_of_nat32)
qed

lemma Get_last_record:
  assumes ok: "store_ok w d" and fb: "file_bytes w d = Some (pre @ record_of bo (now, key, val))"
    and e: "KeyDir d key = Some \<lparr>timestamp = now, writeOffSet = off,
            totalSize = of_nat (record_size (now, key, val))\<rparr>"
    and off: "unat off = length pre"
    and sz: "unat (of_nat (record_size (now, key, val)) :: uint32) = record_size (now, key, val)"
    and one: "record_size (now, key, val) \<le> maxRW"
  shows "\<exists>d'. Get bo key w d = Inr (val, d')"
proof -
  from ok fb obtain h node where h: "file d = Some h" "hopen h" "files w (hpath h) = Some node"
    "bytes node = pre @ record_of bo (now, key, val)"
    by (rule store_okD)
  have "Get bo key w d =
      Inr (val, d\<lparr>file := Some (h\<lparr>hpos := length pre + (headerSize + length key + length val)\<rparr>)\<rparr>)"
    using e h(1-3)
  proof (rule Get_hit [where pre = pre and post = "[]"])
    show "bytes node = pre @ snd (encodeKV bo now key val) @ []"
      by (simp add: h(4) record_of_def)
    show "unat (writeOffSet \<lparr>timestamp = now, writeOffSet = off,
            totalSize = of_nat (record_size (now, key, val))\<rparr>) = length pre"
      by (simp add: off)
    show "unat (totalSize \<lparr>timestamp = now, writeOffSet = off,
            totalSize = of_nat (record_size (now, key, val))\<rparr>) = headerSize + length key + length val"
      using sz by (simp add: record_size_def)
    show "headerSize + length key + length val \<le> maxRW"
      using one by (simp add: record_size_def)
  qed
  then show ?thesis by blast
qed

section \<open>Recovery\<close>

lemma LoadKeys_loop_record:
  assumes "length key \<le> maxRW" and "length val \<le> maxRW"
  shows "LoadKeys_loop bo (pre @ snd (encodeKV bo now key val) @ post) (length pre) d =
         LoadKeys_loop bo (pre @ snd (encodeKV bo now key val) @ post)
           (length pre + (headerSize + length key + length val))
           (d\<lparr>KeyDir := fst (replay [(now, key, val)] (KeyDir d) (writePos d)),
              writePos := snd (replay [(now, key, val)] (KeyDir d) (writePos d))\<rparr>)"
proof -
  have u: "unat (of_nat (length key) :: uint32) = length key"
    "unat (of_nat (length val) :: uint32) = length val"
    using assms [THEN maxRW_less] by (simp_all add: unat_of_nat32)
  show ?thesis
    by (subst LoadKeys_loop.simps)
       (simp add: read_at_record assms decodeHeader_only u add.assoc Let_def)
qed

lemma LoadKeys_span_record:
  assumes "length key \<le> maxRW" and "length val \<le> maxRW"
  shows "LoadKeys_span bo (pre @ snd (encodeKV bo now key val) @ post) (length pre) =
         unat (of_nat (headerSize + length key + length val) :: uint32) +
         LoadKeys_span bo (pre @ snd (encodeKV bo now key val) @ post)
           (length pre + (headerSize + length key + length val))"
proof -
  have u: "unat (of_nat (length key) :: uint32) = length key"
    "unat (of_nat (length val) :: uint32) = length val"
    using assms [THEN maxRW_less] by (simp_all add: unat_of_nat32)
  show ?thesis
    by (subst LoadKeys_span.simps)
       (simp add: read_at_record assms decodeHeader_only u add.assoc Let_def)
qed

lemma LoadKeys_loop_end: "length content \<le> pos \<Longrightarrow> LoadKeys_loop bo content pos d = d"
  by (subst LoadKeys_loop.simps) (simp add: read_at_end headerSize_def)

lemma LoadKeys_span_end: "length content \<le> pos \<Longrightarrow> LoadKeys_span bo content pos = 0"
  by (subst LoadKeys_span.simps) (simp add: read_at_end headerSize_def)

lemma LoadKeys_loop_log:
  assumes "\<forall>c \<in> set calls. fits c"
  shows "LoadKeys_loop bo (pre @ log_of bo calls) (length pre) d =
         d\<lparr>KeyDir := fst (replay calls (KeyDir d) (writePos d)),
           writePos := snd (replay calls (KeyDir d) (writePos d))\<rparr>"
  using assms
proof (induction calls arbitrary: pre d)
  case Nil
  show ?case by (simp add: log_of_Nil LoadKeys_loop_end)
next
  case (Cons c calls)
  obtain now key val where c: "c = (now, key, val)" by (cases c)
  from Cons.prems have fit: "length key \<le> maxRW" "length val \<le> maxRW"
    and rest: "\<forall>c \<in> set calls. fits c"
    by (simp_all add: c fits_def)
  let ?rec = "snd (encodeKV bo now key val)"
  let ?d1 = "d\<lparr>KeyDir := fst (replay [(now, key, val)] (KeyDir d) (writePos d)),
              writePos := snd (replay [(now, key, val)] (KeyDir d) (writePos d))\<rparr>"
  have "LoadKeys_loop bo (pre @ log_of bo (c # calls)) (length pre) d =
        LoadKeys_loop bo (pre @ ?rec @ log_of bo calls) (length pre) d"
    by (simp add: c log_of_Cons record_of_def)
  also have "\<dots> = LoadKeys_loop bo (pre @ ?rec @ log_of bo calls)
           (length pre + (headerSize + length key + length val)) ?d1"
    by (rule LoadKeys_loop_record [OF fit])
  also have "\<dots> = LoadKeys_loop bo ((pre @ ?rec) @ log_of bo calls) (length (pre @ ?rec)) ?d1"
    by (simp add: length_encodeKV)
  also have "\<dots> = ?d1\<lparr>KeyDir := fst (replay calls (KeyDir ?d1) (writePos ?d1)),
           writePos := snd (replay calls (KeyDir ?d1) (writePos ?d1))\<rparr>"
    by (rule Cons.IH [OF rest])
  also have "\<dots> = d\<lparr>KeyDir := fst (replay (c # calls) (KeyDir d) (writePos d)),
           writePos := snd (replay (c # calls) (KeyDir d) (writePos d))\<rparr>"
    by (simp add: c)
  finally show ?case .
qed

lemma LoadKeys_loop_step:
  "LoadKeys_loop bo content pos d =
     (case LoadKeys_step bo content pos of
        None \<Rightarrow> d
      | Some (key, ts, tot, pos') \<Rightarrow>
          LoadKeys_loop bo content pos'
            (d\<lparr>KeyDir := (KeyDir d)(key \<mapsto> \<lparr>timestamp = ts, writeOffSet = writePos d, totalSize = tot\<rparr>),
               writePos := writePos d + tot\<rparr>))"
  by (subst LoadKeys_loop.simps)
     (simp add: LoadKeys_step_def Let_def split: prod.splits option.splits)

lemma LoadKeys_span_step:
  "LoadKeys_span bo content pos =
     (case LoadKeys_step bo content pos of
        None \<Rightarrow> 0
      | Some (key, ts, tot, pos') \<Rightarrow> unat tot + LoadKeys_span bo content pos')"
  by (subst LoadKeys_span.simps)
     (simp add: LoadKeys_step_def Let_def split: prod.splits option.splits)

lemma LoadKeys_step_progress:
  assumes "LoadKeys_step bo content pos = Some (key, ts, tot, pos')"
  shows "length content - pos' < length content - pos"
proof -
  from assms obtain buffer n where r: "read_at content pos headerSize = (buffer, n, None)"
    and le: "pos + n \<le> pos'"
    by (auto simp add: LoadKeys_step_def Let_def split: prod.splits option.splits)
  from r have "0 < n \<and> pos < length content"
    by (auto simp add: read_at_def headerSize_def maxRW_def Let_def split: if_splits)
  with le show ?thesis by arith
qed

lemma NewDiskStore_fresh:
  assumes "files w fileName = None" and "NewDiskStore bo fileName w = Inr (w1, d1, None)"
  shows "w1 = w\<lparr>files := (files w)(fileName \<mapsto> \<lparr>bytes = [], readable = True, writable = True\<rparr>)\<rparr>"
    and "d1 = \<lparr>file = Some \<lparr>hpath = fileName, hpos = 0, hopen = True\<rparr>, writePos = 0, KeyDir = Map.empty\<rparr>"
  using assms
  by (auto simp add: NewDiskStore_def isFileExists_def os_OpenFile_def split: if_splits)

lemma NewDiskStore_existing:
  assumes "files w fileName = Some node" and "NewDiskStore bo fileName w = Inr (w1, d1, None)"
  shows "w1 = w"
    and "d1 = (LoadKeys_loop bo (bytes node) 0 \<lparr>file = None, writePos = 0, KeyDir = Map.empty\<rparr>)
               \<lparr>file := Some \<lparr>hpath = fileName, hpos = 0, hopen = True\<rparr>\<rparr>"
  using assms
  by (auto simp add: NewDiskStore_def isFileExists_def os_OpenFile_def LoadKeys_def os_Open_def bytes_at_def
      split: if_splits sum.splits)

lemma NewDiskStore_existing_flags:
  assumes "files w fileName = Some node" and "NewDiskStore bo fileName w = Inr (w1, d1, None)"
  shows "readable node" and "writable node"
  using assms
  by (auto simp add: NewDiskStore_def isFileExists_def os_OpenFile_def LoadKeys_def os_Open_def bytes_at_def
      split: if_splits sum.splits)

lemma NewDiskStore_existing_ok:
  assumes "files w fileName = Some node" and "readable node" and "writable node"
  shows "NewDiskStore bo fileName w = Inr (w,
     (LoadKeys_loop bo (bytes node) 0 \<lparr>file = None, writePos = 0, KeyDir = Map.empty\<rparr>)
               \<lparr>file := Some \<lparr>hpath = fileName, hpos = 0, hopen = True\<rparr>\<rparr>, None)"
  using assms
  by (simp add: NewDiskStore_def isFileExists_def os_OpenFile_def LoadKeys_def os_Open_def bytes_at_def)

lemma reopen_log:
  assumes "files w fileName = Some node" and "readable node" and "writable node"
    and "bytes node = log_of bo calls" and "\<forall>c \<in> set calls. fits c"
  shows "NewDiskStore bo fileName w =
     Inr (w, \<lparr>file = Some \<lparr>hpath = fileName, hpos = 0, hopen = True\<rparr>,
              writePos = snd (replay calls Map.empty 0),
              KeyDir = fst (replay calls Map.empty 0)\<rparr>, None)"
proof -
  have "LoadKeys_loop bo (bytes node) 0 \<lparr>file = None, writePos = 0, KeyDir = Map.empty\<rparr> =
      \<lparr>file = None, writePos = snd (replay calls Map.empty 0), KeyDir = fst (replay calls Map.empty 0)\<rparr>"
    using LoadKeys_loop_log [OF assms(5), of bo "[]" "\<lparr>file = None, writePos = 0, KeyDir = Map.empty\<rparr>"]
    by (simp add: assms(4))
  then show ?thesis
    by (simp add: NewDiskStore_existing_ok [OF assms(1-3)])
qed

lemma NewDiskStore_log:
  assumes "bytes_at w fileName = log_of bo calls0"
    and "NewDiskStore bo fileName w = Inr (w1, d1, None)"
    and "\<forall>c \<in> set calls0. fits c"
  obtains node1 where "files w1 fileName = Some node1" and "readable node1" and "writable node1"
    and "bytes node1 = log_of bo calls0"
    and "d1 = \<lparr>file = Some \<lparr>hpath = fileName, hpos = 0, hopen = True\<rparr>,
               writePos = snd (replay calls0 Map.empty 0),
               KeyDir = fst (replay calls0 Map.empty 0)\<rparr>"
proof (cases "files w fileName")
  case None
  with assms(1) have "log_of bo calls0 = []"
    by (simp add: bytes_at_def)
  then have c0: "calls0 = []"
    by (rule log_of_empty)
  from NewDiskStore_fresh [OF None assms(2)] show ?thesis
    by (intro that [of "\<lparr>bytes = [], readable = True, writable = True\<rparr>"])
       (simp_all add: c0 log_of_Nil)
next
  case (Some node)
  note flags = NewDiskStore_existing_flags [OF Some assms(2)]
  from Some assms(1) have b: "bytes node = log_of bo calls0"
    by (simp add: bytes_at_def)
  from reopen_log [OF Some flags b assms(3)] assms(2) show ?thesis
    by (intro that [of node]) (simp_all add: Some flags b)
qed

lemma run_sets_fresh:
  assumes "files w fileName = None" and "NewDiskStore bo fileName w = Inr (w1, d1, None)"
    and "run_sets bo calls w1 d1 = Inr (w2, d2)"
  shows "file_bytes w2 d2 = Some (log_of bo calls)"
    and "writePos d2 = of_nat (length (log_of bo calls))"
    and "KeyDir d2 = fst (replay calls Map.empty 0)"
proof -
  let ?h = "\<lparr>hpath = fileName, hpos = 0, hopen = True\<rparr>"
  let ?node = "\<lparr>bytes = [], readable = True, writable = True\<rparr>"
  from NewDiskStore_fresh [OF assms(1,2)]
  have w1: "files w1 (hpath ?h) = Some ?node" and f1: "file d1 = Some ?h"
    and k1: "KeyDir d1 = Map.empty" "writePos d1 = 0"
    by simp_all
  note r = run_sets_Inr [OF assms(3) f1 w1]
  from r obtain h' where h': "file d2 = Some h'" "hpath h' = fileName"
    by auto
  from r have files: "files w2 = (files w1)(hpath ?h \<mapsto> ?node\<lparr>bytes := bytes ?node @ log_of bo calls\<rparr>)"
    by blast
  show "file_bytes w2 d2 = Some (log_of bo calls)"
    by (simp add: file_bytes_def h' files)
  from r have "writePos d2 = snd (replay calls (KeyDir d1) (writePos d1))"
    by blast
  then show "writePos d2 = of_nat (length (log_of bo calls))"
    by (simp add: k1 snd_replay [where bo = bo])
  from r have "KeyDir d2 = fst (replay calls (KeyDir d1) (writePos d1))"
    by blast
  then show "KeyDir d2 = fst (replay calls Map.empty 0)"
    by (simp add: k1)
qed

lemma NewDiskStore_index:
  assumes "NewDiskStore bo fileName w = Inr (w1, d1, e)"
  shows "(KeyDir d1 = Map.empty \<and> writePos d1 = 0) \<or>
         (KeyDir d1 = KeyDir (LoadKeys_loop bo (bytes_at w fileName) 0 emptyDiskStore) \<and>
          writePos d1 = writePos (LoadKeys_loop bo (bytes_at w fileName) 0 emptyDiskStore))"
  using assms
  by (auto simp add: NewDiskStore_def isFileExists_def os_OpenFile_def LoadKeys_def os_Open_def bytes_at_def
      emptyDiskStore_def bytes_at_def split: if_splits sum.splits option.splits)

section \<open>The bound on the entries of the key directory\<close>

lemma index_bounds_insert:
  assumes "index_bounds d" and "unat (writePos d) + unat tot < 2 ^ 32"
  shows "index_bounds (d\<lparr>KeyDir := (KeyDir d)(key \<mapsto>
            \<lparr>timestamp = ts, writeOffSet = writePos d, totalSize = tot\<rparr>),
          writePos := writePos d + tot\<rparr>)"
proof -
  from assms(2) have wp: "unat (writePos d + tot) = unat (writePos d) + unat tot"
    by (simp add: unat_add32)
  show ?thesis
    unfolding index_bounds_def
  proof
    fix e
    assume "e \<in> ran (KeyDir (d\<lparr>KeyDir := (KeyDir d)(key \<mapsto>
            \<lparr>timestamp = ts, writeOffSet = writePos d, totalSize = tot\<rparr>),
          writePos := writePos d + tot\<rparr>))"
    then have "e = \<lparr>timestamp = ts, writeOffSet = writePos d, totalSize = tot\<rparr> \<or> e \<in> ran (KeyDir d)"
      by (auto simp add: ran_def split: if_splits)
    then show "unat (writeOffSet e) + unat (totalSize e) \<le>
        unat (writePos (d\<lparr>KeyDir := (KeyDir d)(key \<mapsto>
            \<lparr>timestamp = ts, writeOffSet = writePos d, totalSize = tot\<rparr>),
          writePos := writePos d + tot\<rparr>))"
    proof
      assume "e = \<lparr>timestamp = ts, writeOffSet = writePos d, totalSize = tot\<rparr>"
      then show ?thesis by (simp add: wp)
    next
      assume "e \<in> ran (KeyDir d)"
      with assms(1) have "unat (writeOffSet e) + unat (totalSize e) \<le> unat (writePos d)"
        by (simp add: index_bounds_def)
      then show ?thesis by (simp add: wp)
    qed
  qed
qed

lemma index_bounds_LoadKeys_loop:
  assumes "index_bounds d" and "unat (writePos d) + LoadKeys_span bo content pos < 2 ^ 32"
  shows "index_bounds (LoadKeys_loop bo content pos d) \<and>
         unat (writePos (LoadKeys_loop bo content pos d)) =
           unat (writePos d) + LoadKeys_span bo content pos"
  using assms
proof (induction "length content - pos" arbitrary: pos d rule: less_induct)
  case less
  show ?case
  proof (cases "LoadKeys_step bo content pos")
    case None
    with less.prems show ?thesis
      by (simp add: LoadKeys_loop_step [of bo content pos] LoadKeys_span_step [of bo content pos])
  next
    case (Some r)
    obtain key ts tot pos' where r: "r = (key, ts, tot, pos')"
      by (cases r)
    let ?d1 = "d\<lparr>KeyDir := (KeyDir d)(key \<mapsto>
            \<lparr>timestamp = ts, writeOffSet = writePos d, totalSize = tot\<rparr>),
          writePos := writePos d + tot\<rparr>"
    have loop: "LoadKeys_loop bo content pos d = LoadKeys_loop bo content pos' ?d1"
      by (simp add: LoadKeys_loop_step [of bo content pos] Some r)
    have span: "LoadKeys_span bo content pos = unat tot + LoadKeys_span bo content pos'"
      by (simp add: LoadKeys_span_step [of bo content pos] Some r)
    from less.prems(2) span have nowrap: "unat (writePos d) + unat tot < 2 ^ 32"
      by simp
    then have wp: "unat (writePos ?d1) = unat (writePos d) + unat tot"
      by (simp add: unat_add32)
    have b1: "index_bounds ?d1"
      using less.prems(1) nowrap by (rule index_bounds_insert)
    have rest: "unat (writePos ?d1) + LoadKeys_span bo content pos' < 2 ^ 32"
      using less.prems(2) span wp by simp
    have smaller: "length content - pos' < length content - pos"
      using Some r by (simp add: LoadKeys_step_progress)
    from less.hyps [OF smaller b1 rest] show ?thesis
      unfolding loop span wp by simp
  qed
qed

lemma index_bounds_run_sets:
  assumes "run_sets bo calls w d = Inr (w', d')" and "index_bounds d"
    and "unat (writePos d) + length (log_of bo calls) < 2 ^ 32"
  shows "index_bounds d'"
  using assms
proof (induction calls arbitrary: w d)
  case Nil
  then show ?case by simp
next
  case (Cons c calls)
  obtain now key val where c: "c = (now, key, val)" by (cases c)
  from Cons.prems(1) obtain w1 d1 where s: "Set bo now key val w d = Inr (w1, d1)"
    and r: "run_sets bo calls w1 d1 = Inr (w', d')"
    by (auto simp add: c split: sum.splits)
  let ?tot = "of_nat (headerSize + length key + length val) :: uint32"
  from s have k1: "KeyDir d1 = (KeyDir d)(key \<mapsto>
        \<lparr>timestamp = now, writeOffSet = writePos d, totalSize = ?tot\<rparr>)"
    and p1: "writePos d1 = writePos d + ?tot"
    by (auto simp add: Set_Inr_iff)
  from Cons.prems(3) have sz: "unat (writePos d) + (headerSize + length key + length val) < 2 ^ 32"
    by (simp add: c log_of_Cons length_record_of record_size_def)
  then have "headerSize + length key + length val < 2 ^ 32"
    by simp
  then have u: "unat ?tot = headerSize + length key + length val"
    by (rule unat_of_nat32)
  with sz have nowrap: "unat (writePos d) + unat ?tot < 2 ^ 32"
    by simp
  from index_bounds_insert [OF Cons.prems(2) nowrap, of key now]
  have b1: "index_bounds d1"
    by (simp add: index_bounds_def k1 p1)
  from nowrap have "unat (writePos d1) = unat (writePos d) + unat ?tot"
    by (simp add: p1 unat_add32)
  with Cons.prems(3) u have "unat (writePos d1) + length (log_of bo calls) < 2 ^ 32"
    by (simp add: c log_of_Cons length_record_of record_size_def)
  with r b1 show ?case
    by (rule Cons.IH)
qed

lemma index_bounds_replay:
  assumes "index_bounds \<lparr>file = f, writePos = pos, KeyDir = dir\<rparr>"
    and "unat pos + length (log_of bo calls) < 2 ^ 32"
  shows "index_bounds \<lparr>file = f, writePos = snd (replay calls dir pos),
           KeyDir = fst (replay calls dir pos)\<rparr>"
  using assms
proof (induction calls arbitrary: dir pos)
  case Nil
  then show ?case by simp
next
  case (Cons c calls)
  obtain now key val where c: "c = (now, key, val)" by (cases c)
  let ?tot = "of_nat (headerSize + length key + length val) :: uint32"
  let ?dir = "dir(key \<mapsto> \<lparr>timestamp = now, writeOffSet = pos, totalSize = ?tot\<rparr>)"
  from Cons.prems(2) have sz: "unat pos + (headerSize + length key + length val) < 2 ^ 32"
    by (simp add: c log_of_Cons length_record_of record_size_def)
  then have "headerSize + length key + length val < 2 ^ 32"
    by simp
  then have u: "unat ?tot = headerSize + length key + length val"
    by (rule unat_of_nat32)
  with sz have nowrap: "unat (writePos \<lparr>file = f, writePos = pos, KeyDir = dir\<rparr>) + unat ?tot < 2 ^ 32"
    by simp
  from index_bounds_insert [OF Cons.prems(1) nowrap, of key now]
  have b1: "index_bounds \<lparr>file = f, writePos = pos + ?tot, KeyDir = ?dir\<rparr>"
    by (simp add: index_bounds_def)
  from nowrap have "unat (pos + ?tot) = unat pos + unat ?tot"
    by (simp add: unat_add32)
  with Cons.prems(2) u have "unat (pos + ?tot) + length (log_of bo calls) < 2 ^ 32"
    by (simp add: c log_of_Cons length_record_of record_size_def)
  with b1 have "index_bounds \<lparr>file = f, writePos = snd (replay calls ?dir (pos + ?tot)),
           KeyDir = fst (replay calls ?dir (pos + ?tot))\<rparr>"
    by (rule Cons.IH)
  then show ?case
    by (simp add: c)
qed

section \<open>Small stores, evaluated\<close>

lemma NewDiskStore_no_files:
  "NewDiskStore bo name (no_files cap) =
     Inr (one_file name [] cap, \<lparr>file = Some (opened name 0), writePos = 0, KeyDir = Map.empty\<rparr>, None)"
  by (simp add: NewDiskStore_def isFileExists_def os_OpenFile_def no_files_def one_file_def opened_def)

lemma NewDiskStore_fresh_store:
  "NewDiskStore bo name (no_files cap) = Inr (one_file name [] cap, fresh_store name, None)"
  by (simp add: NewDiskStore_no_files fresh_store_def)

lemma Set_one_file:
  "length bs + (headerSize + length key + length val) \<le> cap \<Longrightarrow>
   Set bo now key val (one_file name bs cap) \<lparr>file = Some (opened name p), writePos = pos, KeyDir = dir\<rparr> =
     Inr (one_file name (bs @ snd (encodeKV bo now key val)) cap,
          \<lparr>file = Some (opened name (length bs + (headerSize + length key + length val))),
           writePos = pos + of_nat (headerSize + length key + length val),
           KeyDir = dir(key \<mapsto> \<lparr>timestamp = now, writeOffSet = pos,
              totalSize = of_nat (headerSize + length key + length val)\<rparr>)\<rparr>)"
  by (simp add: Set_def file_Write_def one_file_def opened_def split_beta fst_encodeKV length_encodeKV)

lemma run_sets_one_file:
  "length bs + length (log_of bo (c # calls)) \<le> cap \<Longrightarrow>
   run_sets bo (c # calls) (one_file name bs cap)
     \<lparr>file = Some (opened name p), writePos = pos, KeyDir = dir\<rparr> =
   Inr (one_file name (bs @ log_of bo (c # calls)) cap,
        \<lparr>file = Some (opened name (length bs + length (log_of bo (c # calls)))),
         writePos = snd (replay (c # calls) dir pos),
         KeyDir = fst (replay (c # calls) dir pos)\<rparr>)"
proof (induction calls arbitrary: c bs p pos dir)
  case Nil
  obtain now key val where c: "c = (now, key, val)" by (cases c)
  from Nil have "length bs + (headerSize + length key + length val) \<le> cap"
    by (simp add: c log_of_def record_of_def length_encodeKV)
  then show ?case
    by (simp add: c Set_one_file log_of_def record_of_def length_encodeKV) (simp add: fun_upd_def)
next
  case (Cons c' calls)
  obtain now key val where c: "c = (now, key, val)" by (cases c)
  let ?sz = "headerSize + length key + length val"
  from Cons.prems have fit: "length bs + ?sz \<le> cap"
    and rest: "length (bs @ snd (encodeKV bo now key val)) + length (log_of bo (c' # calls)) \<le> cap"
    by (simp_all add: c log_of_Cons length_record_of record_size_def length_encodeKV)
  let ?dir1 = "dir(key \<mapsto> \<lparr>timestamp = now, writeOffSet = pos, totalSize = of_nat ?sz\<rparr>)"
  let ?bs1 = "bs @ snd (encodeKV bo now key val)"
  have step: "run_sets bo (c # c' # calls) (one_file name bs cap)
       \<lparr>file = Some (opened name p), writePos = pos, KeyDir = dir\<rparr> =
     run_sets bo (c' # calls) (one_file name ?bs1 cap)
       \<lparr>file = Some (opened name (length bs + ?sz)), writePos = pos + of_nat ?sz,
        KeyDir = ?dir1\<rparr>"
    unfolding c run_sets.simps Set_one_file [OF fit] by simp
  have ih: "run_sets bo (c' # calls) (one_file name ?bs1 cap)
       \<lparr>file = Some (opened name (length bs + ?sz)), writePos = pos + of_nat ?sz,
        KeyDir = ?dir1\<rparr> =
     Inr (one_file name (?bs1 @ log_of bo (c' # calls)) cap,
        \<lparr>file = Some (opened name (length ?bs1 + length (log_of bo (c' # calls)))),
         writePos = snd (replay (c' # calls) ?dir1 (pos + of_nat ?sz)),
         KeyDir = fst (replay (c' # calls) ?dir1 (pos + of_nat ?sz))\<rparr>)"
    using rest by (rule Cons.IH)
  have log: "log_of bo (c # c' # calls) = snd (encodeKV bo now key val) @ log_of bo (c' # calls)"
    by (simp add: c log_of_Cons [of bo "(now, key, val)"] record_of_def)
  have rep: "replay (c # c' # calls) dir pos = replay (c' # calls) ?dir1 (pos + of_nat ?sz)"
    unfolding c replay.simps ..
  show ?case
    unfolding step ih log rep by (simp add: length_encodeKV add.assoc)
qed

lemma run_sets_fresh_store:
  assumes "length (log_of bo (c # calls)) \<le> cap"
  shows "run_sets bo (c # calls) (one_file name [] cap) (fresh_store name) =
     Inr (one_file name (log_of bo (c # calls)) cap,
          \<lparr>file = Some (opened name (length (log_of bo (c # calls)))),
           writePos = snd (replay (c # calls) Map.empty 0),
           KeyDir = fst (replay (c # calls) Map.empty 0)\<rparr>)"
  using run_sets_one_file [of "[]" bo c calls cap name 0 0 Map.empty] assms
  by (simp add: fresh_store_def del: replay.simps)

lemma store_ok_one_file:
  "store_ok (one_file name bs cap) \<lparr>file = Some (opened name p), writePos = pos, KeyDir = dir\<rparr> \<longleftrightarrow>
     unat pos = length bs"
  by (simp add: store_ok_def one_file_def opened_def)

lemma file_bytes_one_file:
  "file_bytes (one_file name bs cap) \<lparr>file = Some (opened name p), writePos = pos, KeyDir = dir\<rparr> = Some bs"
  by (simp add: file_bytes_def one_file_def opened_def)

lemma record_14: "snd (encodeKV LittleEndian 7 [97] [98]) = [7,0,0,0, 1,0,0,0, 1,0,0,0, 97, 98]"
  by (simp add: encodeKV_def put_uint32_def le_bytes_def)

lemma Set_14:
  "Set LittleEndian 7 [97] [98] (one_file ''books.db'' [] 100) (fresh_store ''books.db'') =
     Inr (one_file ''books.db'' (snd (encodeKV LittleEndian 7 [97] [98])) 100,
          \<lparr>file = Some (opened ''books.db'' 14), writePos = 14,
           KeyDir = [[97] \<mapsto> \<lparr>timestamp = 7, writeOffSet = 0, totalSize = 14\<rparr>]\<rparr>)"
  using Set_one_file [of "[]" "[97]" "[98]" 100 LittleEndian 7 "''books.db''" 0 0 Map.empty]
  by (simp add: headerSize_def fresh_store_def)

lemma Set_28:
  "Set LittleEndian 8 [97] [99] (one_file ''books.db'' (snd (encodeKV LittleEndian 7 [97] [98])) 100)
     \<lparr>file = Some (opened ''books.db'' 14), writePos = 14,
      KeyDir = [[97] \<mapsto> \<lparr>timestamp = 7, writeOffSet = 0, totalSize = 14\<rparr>]\<rparr> =
     Inr (one_file ''books.db''
            (snd (encodeKV LittleEndian 7 [97] [98]) @ snd (encodeKV LittleEndian 8 [97] [99])) 100,
          \<lparr>file = Some (opened ''books.db'' 28), writePos = 28,
           KeyDir = [[97] \<mapsto> \<lparr>timestamp = 8, writeOffSet = 14, totalSize = 14\<rparr>]\<rparr>)"
  using Set_one_file [of "snd (encodeKV LittleEndian 7 [97] [98])" "[97]" "[99]" 100 LittleEndian 8
      "''books.db''" 14 14 "[[97] \<mapsto> \<lparr>timestamp = 7, writeOffSet = 0, totalSize = 14\<rparr>]"]
  by (simp add: headerSize_def length_encodeKV)

lemma Set_13:
  "Set LittleEndian 7 [97] [] (one_file ''books.db'' [] 100) (fresh_store ''books.db'') =
     Inr (one_file ''books.db'' (snd (encodeKV LittleEndian 7 [97] [])) 100,
          \<lparr>file = Some (opened ''books.db'' 13), writePos = 13,
           KeyDir = [[97] \<mapsto> \<lparr>timestamp = 7, writeOffSet = 0, totalSize = 13\<rparr>]\<rparr>)"
  using Set_one_file [of "[]" "[97]" "[]" 100 LittleEndian 7 "''books.db''" 0 0 Map.empty]
  by (simp add: headerSize_def fresh_store_def)

lemma run_sets_14:
  "run_sets LittleEndian [(7, [97], [98])] (one_file ''books.db'' [] 100) (fresh_store ''books.db'') =
     Inr (one_file ''books.db'' (snd (encodeKV LittleEndian 7 [97] [98])) 100,
          \<lparr>file = Some (opened ''books.db'' 14), writePos = 14,
           KeyDir = [[97] \<mapsto> \<lparr>timestamp = 7, writeOffSet = 0, totalSize = 14\<rparr>]\<rparr>)"
  by (simp add: Set_14)

lemma run_sets_28:
  "run_sets LittleEndian [(7, [97], [98]), (8, [97], [99])] (one_file ''books.db'' [] 100)
     (fresh_store ''books.db'') =
     Inr (one_file ''books.db''
            (snd (encodeKV LittleEndian 7 [97] [98]) @ snd (encodeKV LittleEndian 8 [97] [99])) 100,
          \<lparr>file = Some (opened ''books.db'' 28), writePos = 28,
           KeyDir = [[97] \<mapsto> \<lparr>timestamp = 8, writeOffSet = 14, totalSize = 14\<rparr>]\<rparr>)"
  by (simp add: Set_14 Set_28)

lemma two_records:
  "log_of LittleEndian [(7, [97], [98, 99]), (9, [100], [101, 102])] =
     [7,0,0,0, 1,0,0,0, 2,0,0,0, 97, 98, 99, 9,0,0,0, 1,0,0,0, 2,0,0,0, 100, 101, 102]"
  by (simp add: log_of_def record_of_def encodeKV_def put_uint32_def le_bytes_def)

lemma decodeHeader_7: "decodeHeader LittleEndian [7,0,0,0, 1,0,0,0, 2,0,0,0] = (7, 1, 2)"
  by (simp add: decodeHeader_def get_uint32_def le_word_def)

lemma decodeHeader_9: "decodeHeader LittleEndian [9,0,0,0, 1,0,0,0, 2,0,0,0] = (9, 1, 2)"
  by (simp add: decodeHeader_def get_uint32_def le_word_def)

lemma LoadKeys_loop_cut_after_key:
  "LoadKeys_loop LittleEndian
     [7,0,0,0, 1,0,0,0, 2,0,0,0, 97, 98, 99, 9,0,0,0, 1,0,0,0, 2,0,0,0, 100] 0
     \<lparr>file = None, writePos = 0, KeyDir = Map.empty\<rparr> =
   \<lparr>file = None, writePos = 15,
    KeyDir = [[97] \<mapsto> \<lparr>timestamp = 7, writeOffSet = 0, totalSize = 15\<rparr>]\<rparr>"
  apply (subst LoadKeys_loop.simps)
  apply (simp add: read_at_def headerSize_def maxRW_def decodeHeader_7)
  apply (subst LoadKeys_loop.simps)
  apply (simp add: read_at_def headerSize_def maxRW_def decodeHeader_9)
  done

lemma LoadKeys_loop_cut_in_value:
  "LoadKeys_loop LittleEndian
     [7,0,0,0, 1,0,0,0, 2,0,0,0, 97, 98, 99, 9,0,0,0, 1,0,0,0, 2,0,0,0, 100, 101] 0
     \<lparr>file = None, writePos = 0, KeyDir = Map.empty\<rparr> =
   \<lparr>file = None, writePos = 30,
    KeyDir = [[97] \<mapsto> \<lparr>timestamp = 7, writeOffSet = 0, totalSize = 15\<rparr>,
              [100] \<mapsto> \<lparr>timestamp = 9, writeOffSet = 15, totalSize = 15\<rparr>]\<rparr>"
  apply (subst LoadKeys_loop.simps)
  apply (simp add: read_at_def headerSize_def maxRW_def decodeHeader_7)
  apply (subst LoadKeys_loop.simps)
  apply (simp add: read_at_def headerSize_def maxRW_def decodeHeader_9)
  apply (subst LoadKeys_loop.simps)
  apply (simp add: read_at_def headerSize_def maxRW_def)
  done

section \<open>Sessions, and the log of four gibibytes\<close>

lemma session_no_files:
  assumes "length (log_of bo (c # calls)) \<le> cap"
    and "fst (replay (c # calls) Map.empty 0) key = Some e"
    and "log_of bo (c # calls) = pre @ snd (encodeKV bo now k val) @ post"
    and "unat (writeOffSet e) = length pre"
    and "unat (totalSize e) = headerSize + length k + length val"
    and "headerSize + length k + length val \<le> maxRW"
  shows "session bo name (c # calls) key (no_files cap) = Inr val"
proof -
  let ?w = "one_file name (log_of bo (c # calls)) cap"
  let ?d = "\<lparr>file = Some (opened name (length (log_of bo (c # calls)))),
           writePos = snd (replay (c # calls) Map.empty 0),
           KeyDir = fst (replay (c # calls) Map.empty 0)\<rparr>"
  have get: "Get bo key ?w ?d =
      Inr (val, ?d\<lparr>file := Some ((opened name (length (log_of bo (c # calls))))
         \<lparr>hpos := length pre + (headerSize + length k + length val)\<rparr>)\<rparr>)"
  proof (rule Get_hit [where e = e and now = now and post = post and
        node = "\<lparr>bytes = log_of bo (c # calls), readable = True, writable = True\<rparr>"])
    show "KeyDir ?d key = Some e" using assms(2) by simp
    show "file ?d = Some (opened name (length (log_of bo (c # calls))))" by simp
    show "hopen (opened name (length (log_of bo (c # calls))))" by (simp add: opened_def)
    show "files ?w (hpath (opened name (length (log_of bo (c # calls))))) =
        Some \<lparr>bytes = log_of bo (c # calls), readable = True, writable = True\<rparr>"
      by (simp add: one_file_def opened_def)
    show "bytes \<lparr>bytes = log_of bo (c # calls), readable = True, writable = True\<rparr> =
        pre @ snd (encodeKV bo now k val) @ post"
      using assms(3) by simp
    show "unat (writeOffSet e) = length pre" by (rule assms(4))
    show "unat (totalSize e) = headerSize + length k + length val" by (rule assms(5))
    show "headerSize + length k + length val \<le> maxRW" by (rule assms(6))
  qed
  show ?thesis
    unfolding session_def NewDiskStore_fresh_store
    by (simp add: run_sets_fresh_store [OF assms(1)] get del: replay.simps)
qed

lemma session_reopened_no_files:
  assumes "length (log_of bo (c # calls)) \<le> cap"
    and "\<forall>x \<in> set (c # calls). fits x"
    and "fst (replay (c # calls) Map.empty 0) key = Some e"
    and "log_of bo (c # calls) = pre @ snd (encodeKV bo now k val) @ post"
    and "unat (writeOffSet e) = length pre"
    and "unat (totalSize e) = headerSize + length k + length val"
    and "headerSize + length k + length val \<le> maxRW"
  shows "session_reopened bo name (c # calls) key (no_files cap) = Inr val"
proof -
  let ?w = "one_file name (log_of bo (c # calls)) cap"
  let ?node = "\<lparr>bytes = log_of bo (c # calls), readable = True, writable = True\<rparr>"
  let ?d2 = "\<lparr>file = Some (opened name (length (log_of bo (c # calls)))),
           writePos = snd (replay (c # calls) Map.empty 0),
           KeyDir = fst (replay (c # calls) Map.empty 0)\<rparr>"
  let ?d3 = "\<lparr>file = Some \<lparr>hpath = name, hpos = 0, hopen = True\<rparr>,
           writePos = snd (replay (c # calls) Map.empty 0),
           KeyDir = fst (replay (c # calls) Map.empty 0)\<rparr>"
  have close: "Close ?d2 = Inr (?d2\<lparr>file := Some ((opened name (length (log_of bo (c # calls))))\<lparr>hopen := False\<rparr>)\<rparr>)"
    by (simp add: Close_def file_Close_def opened_def)
  have new: "NewDiskStore bo name ?w = Inr (?w, ?d3, None)"
  proof (rule reopen_log [where node = ?node])
    show "files ?w name = Some ?node" by (simp add: one_file_def)
    show "readable ?node" "writable ?node" by simp_all
    show "bytes ?node = log_of bo (c # calls)" by simp
    show "\<forall>x \<in> set (c # calls). fits x" by (rule assms(2))
  qed
  have get: "Get bo key ?w ?d3 =
      Inr (val, ?d3\<lparr>file := Some (\<lparr>hpath = name, hpos = 0, hopen = True\<rparr>
         \<lparr>hpos := length pre + (headerSize + length k + length val)\<rparr>)\<rparr>)"
  proof (rule Get_hit [where e = e and now = now and post = post and node = ?node])
    show "KeyDir ?d3 key = Some e" using assms(3) by simp
    show "file ?d3 = Some \<lparr>hpath = name, hpos = 0, hopen = True\<rparr>" by simp
    show "hopen \<lparr>hpath = name, hpos = 0, hopen = True\<rparr>" by simp
    show "files ?w (hpath \<lparr>hpath = name, hpos = 0, hopen = True\<rparr>) = Some ?node"
      by (simp add: one_file_def)
    show "bytes ?node = pre @ snd (encodeKV bo now k val) @ post"
      using assms(4) by simp
    show "unat (writeOffSet e) = length pre" by (rule assms(5))
    show "unat (totalSize e) = headerSize + length k + length val" by (rule assms(6))
    show "headerSize + length k + length val \<le> maxRW" by (rule assms(7))
  qed
  show ?thesis
    unfolding session_reopened_def NewDiskStore_fresh_store
    by (simp add: run_sets_fresh_store [OF assms(1)] close new get del: replay.simps)
qed

lemma length_gib [simp]: "length gib_value = 1073741824" "length gib_tail = 1073741758"
  by (simp_all add: gib_value_def gib_tail_def)

lemma length_gib_log: "length (log_of bo gib_calls) = 4294967296"
  by (simp add: length_log_of gib_calls_def gib_rest_def record_size_def headerSize_def)

lemma replay_gib:
  "replay gib_calls Map.empty 0 =
     ([[97] \<mapsto> \<lparr>timestamp = 1, writeOffSet = 0, totalSize = 14\<rparr>,
       [107] \<mapsto> \<lparr>timestamp = 5, writeOffSet = 3221225525, totalSize = 1073741771\<rparr>], 0)"
  by (simp add: gib_calls_def gib_rest_def headerSize_def)

lemma run_sets_gib:
  "run_sets LittleEndian gib_calls (one_file ''books.db'' [] 8589934592)
     \<lparr>file = Some (opened ''books.db'' 0), writePos = 0, KeyDir = Map.empty\<rparr> =
   Inr (one_file ''books.db'' (log_of LittleEndian gib_calls) 8589934592, gib_store)"
  using run_sets_one_file [of "[]" LittleEndian "(1, [97], [121])" gib_rest "8589934592" "''books.db''"
      0 0 Map.empty]
  by (simp add: gib_calls_def [symmetric] length_gib_log replay_gib gib_store_def del: replay.simps)

lemma run_sets_gib_store:
  "run_sets LittleEndian gib_calls (one_file ''books.db'' [] 8589934592) (fresh_store ''books.db'') =
     Inr (one_file ''books.db'' (log_of LittleEndian gib_calls) 8589934592, gib_store)"
  using run_sets_gib by (simp add: fresh_store_def)

lemma gib_then:
  "length (log_of bo (gib_calls @ [(now, key, val)])) = 4294967296 + (headerSize + length key + length val)"
  "replay (gib_calls @ [(now, key, val)]) Map.empty 0 =
     ([[97] \<mapsto> \<lparr>timestamp = 1, writeOffSet = 0, totalSize = 14\<rparr>,
       [107] \<mapsto> \<lparr>timestamp = 5, writeOffSet = 3221225525, totalSize = 1073741771\<rparr>,
       key \<mapsto> \<lparr>timestamp = now, writeOffSet = 0,
                 totalSize = of_nat (headerSize + length key + length val)\<rparr>],
      of_nat (headerSize + length key + length val))"
  "log_of bo (gib_calls @ [(now, key, val)]) =
     [] @ snd (encodeKV bo 1 [97] [121]) @ log_of bo (gib_rest @ [(now, key, val)])"
  "gib_calls @ [(now, key, val)] = (1, [97], [121]) # (gib_rest @ [(now, key, val)])"
  by (simp_all add: log_of_append length_gib_log replay_append replay_gib log_of_Cons log_of_Nil
      length_record_of record_size_def)
     (simp_all add: gib_calls_def log_of_Cons record_of_def)

lemma fits_gib: "\<forall>x \<in> set (gib_calls @ [(6, [107], [122])]). fits x"
  by (simp add: gib_calls_def gib_rest_def fits_def maxRW_def)

lemma session_gib_k:
  "session LittleEndian ''books.db'' (gib_calls @ [(6, [107], [122])]) [107] (no_files 8589934592) =
     Inr [121]"
  unfolding gib_then(4)
proof (rule session_no_files [where e = "\<lparr>timestamp = 6, writeOffSet = 0, totalSize = 14\<rparr>"
      and pre = "[]" and now = 1 and k = "[97]"
      and post = "log_of LittleEndian (gib_rest @ [(6, [107], [122])])"])
  show "length (log_of LittleEndian ((1, [97], [121]) # gib_rest @ [(6, [107], [122])])) \<le> 8589934592"
    unfolding gib_then(4) [symmetric] gib_then(1) by (simp add: headerSize_def)
  show "fst (replay ((1, [97], [121]) # gib_rest @ [(6, [107], [122])]) Map.empty 0) [107] =
      Some \<lparr>timestamp = 6, writeOffSet = 0, totalSize = 14\<rparr>"
    unfolding gib_then(4) [symmetric] gib_then(2) by (simp add: headerSize_def)
  show "log_of LittleEndian ((1, [97], [121]) # gib_rest @ [(6, [107], [122])]) =
      [] @ snd (encodeKV LittleEndian 1 [97] [121]) @ log_of LittleEndian (gib_rest @ [(6, [107], [122])])"
    unfolding gib_then(4) [symmetric] by (rule gib_then(3))
  show "unat (writeOffSet \<lparr>timestamp = 6, writeOffSet = 0, totalSize = 14\<rparr>) = length ([] :: bytes)"
    by simp
  show "unat (totalSize \<lparr>timestamp = 6, writeOffSet = 0, totalSize = 14\<rparr>) =
      headerSize + length [97 :: byte] + length [121 :: byte]"
    by (simp add: headerSize_def)
  show "headerSize + length [97 :: byte] + length [121 :: byte] \<le> maxRW"
    by (simp add: headerSize_def maxRW_def)
qed

lemma session_gib_ab:
  "session LittleEndian ''books.db'' (gib_calls @ [(6, [97, 98], [])]) [97, 98] (no_files 8589934592) =
     Inr [121]"
  unfolding gib_then(4)
proof (rule session_no_files [where e = "\<lparr>timestamp = 6, writeOffSet = 0, totalSize = 14\<rparr>"
      and pre = "[]" and now = 1 and k = "[97]"
      and post = "log_of LittleEndian (gib_rest @ [(6, [97, 98], [])])"])
  show "length (log_of LittleEndian ((1, [97], [121]) # gib_rest @ [(6, [97, 98], [])])) \<le> 8589934592"
    unfolding gib_then(4) [symmetric] gib_then(1) by (simp add: headerSize_def)
  show "fst (replay ((1, [97], [121]) # gib_rest @ [(6, [97, 98], [])]) Map.empty 0) [97, 98] =
      Some \<lparr>timestamp = 6, writeOffSet = 0, totalSize = 14\<rparr>"
    unfolding gib_then(4) [symmetric] gib_then(2) by (simp add: headerSize_def)
  show "log_of LittleEndian ((1, [97], [121]) # gib_rest @ [(6, [97, 98], [])]) =
      [] @ snd (encodeKV LittleEndian 1 [97] [121]) @ log_of LittleEndian (gib_rest @ [(6, [97, 98], [])])"
    unfolding gib_then(4) [symmetric] by (rule gib_then(3))
  show "unat (writeOffSet \<lparr>timestamp = 6, writeOffSet = 0, totalSize = 14\<rparr>) = length ([] :: bytes)"
    by simp
  show "unat (totalSize \<lparr>timestamp = 6, writeOffSet = 0, totalSize = 14\<rparr>) =
      headerSize + length [97 :: byte] + length [121 :: byte]"
    by (simp add: headerSize_def)
  show "headerSize + length [97 :: byte] + length [121 :: byte] \<le> maxRW"
    by (simp add: headerSize_def maxRW_def)
qed

lemma session_reopened_gib_k:
  "session_reopened LittleEndian ''books.db'' (gib_calls @ [(6, [107], [122])]) [107]
     (no_files 8589934592) = Inr [121]"
  unfolding gib_then(4)
proof (rule session_reopened_no_files [where e = "\<lparr>timestamp = 6, writeOffSet = 0, totalSize = 14\<rparr>"
      and pre = "[]" and now = 1 and k = "[97]"
      and post = "log_of LittleEndian (gib_rest @ [(6, [107], [122])])"])
  show "length (log_of LittleEndian ((1, [97], [121]) # gib_rest @ [(6, [107], [122])])) \<le> 8589934592"
    unfolding gib_then(4) [symmetric] gib_then(1) by (simp add: headerSize_def)
  show "\<forall>x \<in> set ((1, [97], [121]) # gib_rest @ [(6, [107], [122])]). fits x"
    unfolding gib_then(4) [symmetric] by (rule fits_gib)
  show "fst (replay ((1, [97], [121]) # gib_rest @ [(6, [107], [122])]) Map.empty 0) [107] =
      Some \<lparr>timestamp = 6, writeOffSet = 0, totalSize = 14\<rparr>"
    unfolding gib_then(4) [symmetric] gib_then(2) by (simp add: headerSize_def)
  show "log_of LittleEndian ((1, [97], [121]) # gib_rest @ [(6, [107], [122])]) =
      [] @ snd (encodeKV LittleEndian 1 [97] [121]) @ log_of LittleEndian (gib_rest @ [(6, [107], [122])])"
    unfolding gib_then(4) [symmetric] by (rule gib_then(3))
  show "unat (writeOffSet \<lparr>timestamp = 6, writeOffSet = 0, totalSize = 14\<rparr>) = length ([] :: bytes)"
    by simp
  show "unat (totalSize \<lparr>timestamp = 6, writeOffSet = 0, totalSize = 14\<rparr>) =
      headerSize + length [97 :: byte] + length [121 :: byte]"
    by (simp add: headerSize_def)
  show "headerSize + length [97 :: byte] + length [121 :: byte] \<le> maxRW"
    by (simp add: headerSize_def maxRW_def)
qed

section \<open>C1: the last write wins\<close>

text \<open>
  C1. The spec states that \<^verbatim>\<open>Get(k)\<close> returns \<open>v2\<close> after \<^verbatim>\<open>Set(k, v1)\<close> and
  \<^verbatim>\<open>Set(k, v2)\<close> on an open store, for every key and all values, and the second main
  program of the repository says of the code: ``we see the updated value since the
  in-memory hash table stores the updated offset for the same key''. The code does
  not keep this once the file has \<open>2^32\<close> bytes. \<^verbatim>\<open>writePos\<close> and the offsets of the
  key directory are \<^verbatim>\<open>uint32\<close>, and \<^verbatim>\<open>Set\<close> adds the size of each record to \<^verbatim>\<open>writePos\<close>
  without a check, while the file goes on growing. In the session below, on a path
  that does not exist, \<^verbatim>\<open>NewDiskStore\<close> is followed by \<^verbatim>\<open>Set("a", "y")\<close>, three calls
  of \<^verbatim>\<open>Set("k", v)\<close> with a value of \<open>2^30\<close> bytes and \<^verbatim>\<open>Set("k", v1)\<close> with a value of
  \<open>2^30 - 66\<close> bytes, which brings the file to \<open>2^32\<close> bytes and \<^verbatim>\<open>writePos\<close> around
  to 0. Every call succeeds. \<^verbatim>\<open>Set("k", "z")\<close> then appends its record behind the
  others but enters it at offset 0, and \<^verbatim>\<open>Get("k")\<close> reads the 14 bytes with which
  the file begins and returns \<open>y\<close>, the value of the key \<open>a\<close>, and not \<open>z\<close>.
\<close>

theorem last_write_lost_after_wrap:
  "session LittleEndian ''books.db'' (gib_calls @ [(6, [107], [122])]) [107] (no_files 8589934592) =
     Inr [121] \<and>
   session LittleEndian ''books.db'' (gib_calls @ [(6, [107], [122])]) [107] (no_files 8589934592) \<noteq>
     Inr [122]"
  by (simp add: session_gib_k)

text \<open>
  Below that size the last write does win. On an open store whose \<^verbatim>\<open>writePos\<close> is the
  length of its file, as long as the file stays shorter than \<open>2^32\<close> bytes after both
  appends and the second record is short enough for the single \<^verbatim>\<open>Read\<close> of \<^verbatim>\<open>Get\<close>
  (at most \<open>maxRW\<close> bytes): after \<^verbatim>\<open>Set(k, v1)\<close> and \<^verbatim>\<open>Set(k, v2)\<close>, \<^verbatim>\<open>Get(k)\<close> returns
  \<open>v2\<close>; the file is the old file followed by the two records, so it has grown by the
  encoded size of both and no byte of it has changed.
\<close>

lemma last_write_wins_below_wrap:
  assumes "store_ok w d" and "file_bytes w d = Some old"
    and "length old + record_size (t1, key, v1) + record_size (t2, key, v2) < 2 ^ 32"
    and "Set bo t1 key v1 w d = Inr (w1, d1)"
    and "Set bo t2 key v2 w1 d1 = Inr (w2, d2)"
    and "record_size (t2, key, v2) \<le> maxRW"
  shows "(\<exists>d3. Get bo key w2 d2 = Inr (v2, d3)) \<and>
         file_bytes w2 d2 = Some (old @ record_of bo (t1, key, v1) @ record_of bo (t2, key, v2)) \<and>
         length (old @ record_of bo (t1, key, v1) @ record_of bo (t2, key, v2)) =
           length old + (headerSize + length key + length v1) + (headerSize + length key + length v2)"
proof -
  from assms(3) have len1: "length old + record_size (t1, key, v1) < 2 ^ 32"
    by simp
  note s1 = Set_store_ok [OF assms(1,2) len1 assms(4)]
  from assms(3) have len2: "length (old @ record_of bo (t1, key, v1)) + record_size (t2, key, v2) < 2 ^ 32"
    by (simp add: length_record_of)
  note s2 = Set_store_ok [OF s1(1,2) len2 assms(5)]
  have fb: "file_bytes w2 d2 = Some ((old @ record_of bo (t1, key, v1)) @ record_of bo (t2, key, v2))"
    by (rule s2(2))
  have e: "KeyDir d2 key = Some \<lparr>timestamp = t2, writeOffSet = writePos d1,
            totalSize = of_nat (record_size (t2, key, v2))\<rparr>"
    by (simp add: s2(3))
  have "\<exists>d3. Get bo key w2 d2 = Inr (v2, d3)"
    using s2(1) fb e s2(4) s2(5) assms(6) by (rule Get_last_record)
  moreover have "length (old @ record_of bo (t1, key, v1) @ record_of bo (t2, key, v2)) =
           length old + (headerSize + length key + length v1) + (headerSize + length key + length v2)"
    by (simp add: length_record_of record_size_def)
  ultimately show ?thesis
    using fb by simp
qed

lemma last_write_wins_below_wrap_example:
  "store_ok (one_file ''books.db'' [] 100) (fresh_store ''books.db'') \<and>
   file_bytes (one_file ''books.db'' [] 100) (fresh_store ''books.db'') = Some [] \<and>
   Set LittleEndian 7 [97] [98] (one_file ''books.db'' [] 100) (fresh_store ''books.db'') =
     Inr (one_file ''books.db'' (snd (encodeKV LittleEndian 7 [97] [98])) 100,
          \<lparr>file = Some (opened ''books.db'' 14), writePos = 14,
           KeyDir = [[97] \<mapsto> \<lparr>timestamp = 7, writeOffSet = 0, totalSize = 14\<rparr>]\<rparr>) \<and>
   Set LittleEndian 8 [97] [99] (one_file ''books.db'' (snd (encodeKV LittleEndian 7 [97] [98])) 100)
     \<lparr>file = Some (opened ''books.db'' 14), writePos = 14,
      KeyDir = [[97] \<mapsto> \<lparr>timestamp = 7, writeOffSet = 0, totalSize = 14\<rparr>]\<rparr> =
     Inr (one_file ''books.db''
            (snd (encodeKV LittleEndian 7 [97] [98]) @ snd (encodeKV LittleEndian 8 [97] [99])) 100,
          \<lparr>file = Some (opened ''books.db'' 28), writePos = 28,
           KeyDir = [[97] \<mapsto> \<lparr>timestamp = 8, writeOffSet = 14, totalSize = 14\<rparr>]\<rparr>) \<and>
   (\<exists>d3. Get LittleEndian [97]
      (one_file ''books.db''
         (snd (encodeKV LittleEndian 7 [97] [98]) @ snd (encodeKV LittleEndian 8 [97] [99])) 100)
      \<lparr>file = Some (opened ''books.db'' 28), writePos = 28,
       KeyDir = [[97] \<mapsto> \<lparr>timestamp = 8, writeOffSet = 14, totalSize = 14\<rparr>]\<rparr> = Inr ([99], d3)) \<and>
   file_bytes
      (one_file ''books.db''
         (snd (encodeKV LittleEndian 7 [97] [98]) @ snd (encodeKV LittleEndian 8 [97] [99])) 100)
      \<lparr>file = Some (opened ''books.db'' 28), writePos = 28,
       KeyDir = [[97] \<mapsto> \<lparr>timestamp = 8, writeOffSet = 14, totalSize = 14\<rparr>]\<rparr> =
     Some (snd (encodeKV LittleEndian 7 [97] [98]) @ snd (encodeKV LittleEndian 8 [97] [99]))"
proof -
  have ok: "store_ok (one_file ''books.db'' [] 100) (fresh_store ''books.db'')"
    by (simp add: fresh_store_def store_ok_one_file)
  have fb: "file_bytes (one_file ''books.db'' [] 100) (fresh_store ''books.db'') = Some []"
    by (simp add: fresh_store_def file_bytes_one_file)
  have len: "length ([] :: bytes) + record_size (7, [97], [98]) + record_size (8, [97], [99]) < 2 ^ 32"
    by (simp add: record_size_def headerSize_def)
  have one: "record_size (8, [97], [99]) \<le> maxRW"
    by (simp add: record_size_def headerSize_def maxRW_def)
  from last_write_wins_below_wrap [OF ok fb len Set_14 Set_28 one] ok fb Set_14 Set_28
  show ?thesis
    by (simp add: record_of_def)
qed

section \<open>C2: persistence across reopening\<close>

text \<open>
  C2. The spec states that after a successful \<^verbatim>\<open>Set(k, v)\<close>, \<^verbatim>\<open>Close\<close> and opening
  the same path again, \<^verbatim>\<open>Get(k)\<close> returns \<open>v\<close>, for every key and value; the comment on
  \<^verbatim>\<open>DiskStore\<close> says of the code that ``all the data is persisted to disk'' and that
  ``during startup, DiskStorage loads all the existing KV pair metadata''. In the
  session below \<^verbatim>\<open>Set("k", "z")\<close> follows the five calls that
  wrote \<open>2^32\<close> bytes to a fresh file, then the store is closed and opened again.
  \<^verbatim>\<open>LoadKeys\<close> replays the six records, none of them longer than a single \<^verbatim>\<open>Read\<close>
  takes, and adds their sizes to its \<^verbatim>\<open>uint32\<close> \<^verbatim>\<open>writePos\<close> without a check, so that
  \<^verbatim>\<open>writePos\<close> wraps around as that of the closed store did. The new store has the
  last record at offset 0 as well, and \<^verbatim>\<open>Get("k")\<close> returns \<open>y\<close>, the value of the
  first record of the file, and not \<open>z\<close>.
\<close>

theorem reopened_after_wrap_reads_first_record:
  "session_reopened LittleEndian ''books.db'' (gib_calls @ [(6, [107], [122])]) [107]
     (no_files 8589934592) = Inr [121] \<and>
   session_reopened LittleEndian ''books.db'' (gib_calls @ [(6, [107], [122])]) [107]
     (no_files 8589934592) \<noteq> Inr [122]"
  by (simp add: session_reopened_gib_k)

text \<open>
  Below that size recovery does give back what was written. Take a store opened on a
  fresh file or on a file that holds the log of earlier calls of \<^verbatim>\<open>Set\<close>, any sequence
  of successful calls of \<^verbatim>\<open>Set\<close> on it, and then a successful \<^verbatim>\<open>Set(k, v)\<close>, such that
  the file stays shorter than \<open>2^32\<close> bytes, no key and no value is longer than a
  single \<^verbatim>\<open>Read\<close> takes, and the last record is not longer than that either. Then
  \<^verbatim>\<open>Close\<close> succeeds, opening the same path again succeeds, the key directory and
  \<^verbatim>\<open>writePos\<close> of the new store are those of the store that was closed, and \<^verbatim>\<open>Get(k)\<close>
  on the new store returns \<open>v\<close>.
\<close>

lemma persistence_below_wrap:
  assumes "bytes_at w fileName = log_of bo calls0"
    and "NewDiskStore bo fileName w = Inr (w1, d1, None)"
    and "run_sets bo calls w1 d1 = Inr (w2, d2)"
    and "Set bo now key val w2 d2 = Inr (w3, d3)"
    and "length (log_of bo (calls0 @ calls @ [(now, key, val)])) < 2 ^ 32"
    and "\<forall>c \<in> set (calls0 @ calls @ [(now, key, val)]). fits c"
    and "record_size (now, key, val) \<le> maxRW"
  shows "(\<exists>d4. Close d3 = Inr d4) \<and>
         (\<exists>d5. NewDiskStore bo fileName w3 = Inr (w3, d5, None) \<and>
            KeyDir d5 = KeyDir d3 \<and> writePos d5 = writePos d3 \<and>
            (\<exists>d6. Get bo key w3 d5 = Inr (val, d6)))"
proof -
  let ?c = "(now, key, val)"
  let ?all = "calls0 @ calls @ [?c]"
  let ?h0 = "\<lparr>hpath = fileName, hpos = 0, hopen = True\<rparr>"
  have fit_all: "\<forall>c \<in> set ?all. fits c"
    by (rule assms(6))
  then have fit0: "\<forall>c \<in> set calls0. fits c"
    by simp
  from assms(1,2) fit0 obtain node1 where n1: "files w1 fileName = Some node1"
    "readable node1" "writable node1" "bytes node1 = log_of bo calls0"
    and d1: "d1 = \<lparr>file = Some ?h0, writePos = snd (replay calls0 Map.empty 0),
               KeyDir = fst (replay calls0 Map.empty 0)\<rparr>"
    by (rule NewDiskStore_log)
  have run: "run_sets bo (calls @ [?c]) w1 d1 = Inr (w3, d3)"
    by (simp add: run_sets_append assms(3,4))
  have f1: "file d1 = Some ?h0"
    by (simp add: d1)
  have w1: "files w1 (hpath ?h0) = Some node1"
    by (simp add: n1)
  note r = run_sets_Inr [OF run f1 w1]
  from r obtain h' where h': "file d3 = Some h'" "hpath h' = fileName" "hopen h'"
    by auto
  let ?node3 = "node1\<lparr>bytes := bytes node1 @ log_of bo (calls @ [?c])\<rparr>"
  from r have "files w3 = (files w1)(hpath ?h0 \<mapsto> ?node3)"
    by blast
  then have w3: "files w3 fileName = Some ?node3"
    by simp
  have b3: "bytes ?node3 = log_of bo ?all"
    by (simp add: n1 log_of_append)
  from r have "KeyDir d3 = fst (replay (calls @ [?c]) (KeyDir d1) (writePos d1))"
    and "writePos d3 = snd (replay (calls @ [?c]) (KeyDir d1) (writePos d1))"
    by blast+
  then have k3: "KeyDir d3 = fst (replay ?all Map.empty 0)"
    and p3: "writePos d3 = snd (replay ?all Map.empty 0)"
    by (simp_all add: d1 replay_append [of calls0])
  let ?d5 = "\<lparr>file = Some ?h0, writePos = snd (replay ?all Map.empty 0),
              KeyDir = fst (replay ?all Map.empty 0)\<rparr>"
  have new: "NewDiskStore bo fileName w3 = Inr (w3, ?d5, None)"
    using w3 _ _ b3 fit_all by (rule reopen_log) (simp_all add: n1)
  have close: "\<exists>d4. Close d3 = Inr d4"
    by (simp add: Close_def file_Close_def h')
  have wp: "unat (writePos ?d5) = length (log_of bo ?all)"
    using assms(5) by (simp add: snd_replay [where bo = bo] unat_of_nat32)
  have ok: "store_ok w3 ?d5"
    using wp by (simp add: store_ok_def w3 b3)
  have fb: "file_bytes w3 ?d5 = Some (log_of bo (calls0 @ calls) @ record_of bo ?c)"
    by (simp add: file_bytes_def w3 n1 log_of_append log_of_Cons log_of_Nil)
  have e: "KeyDir ?d5 key = Some \<lparr>timestamp = now,
      writeOffSet = 0 + of_nat (length (log_of bo (calls0 @ calls))),
      totalSize = of_nat (record_size ?c)\<rparr>"
    using replay_last [of "calls0 @ calls" now key val Map.empty 0 bo] by simp
  have lens: "length (log_of bo (calls0 @ calls)) + record_size ?c < 2 ^ 32"
    using assms(5) by (simp add: log_of_append log_of_Cons log_of_Nil length_record_of)
  have off: "unat (0 + of_nat (length (log_of bo (calls0 @ calls))) :: uint32) =
      length (log_of bo (calls0 @ calls))"
    using lens by (simp add: unat_of_nat32)
  have sz: "unat (of_nat (record_size ?c) :: uint32) = record_size ?c"
    using lens by (simp add: unat_of_nat32)
  have get: "\<exists>d6. Get bo key w3 ?d5 = Inr (val, d6)"
    using ok fb e off sz assms(7) by (rule Get_last_record)
  from new k3 p3 get have "\<exists>d5. NewDiskStore bo fileName w3 = Inr (w3, d5, None) \<and>
            KeyDir d5 = KeyDir d3 \<and> writePos d5 = writePos d3 \<and>
            (\<exists>d6. Get bo key w3 d5 = Inr (val, d6))"
    by (intro exI [of _ ?d5]) simp
  with close show ?thesis
    by blast
qed

lemma persistence_below_wrap_example:
  "bytes_at (no_files 100) ''books.db'' = log_of LittleEndian [] \<and>
   NewDiskStore LittleEndian ''books.db'' (no_files 100) =
     Inr (one_file ''books.db'' [] 100, fresh_store ''books.db'', None) \<and>
   run_sets LittleEndian [(7, [97], [98])] (one_file ''books.db'' [] 100) (fresh_store ''books.db'') =
     Inr (one_file ''books.db'' (snd (encodeKV LittleEndian 7 [97] [98])) 100,
          \<lparr>file = Some (opened ''books.db'' 14), writePos = 14,
           KeyDir = [[97] \<mapsto> \<lparr>timestamp = 7, writeOffSet = 0, totalSize = 14\<rparr>]\<rparr>) \<and>
   Set LittleEndian 8 [97] [99] (one_file ''books.db'' (snd (encodeKV LittleEndian 7 [97] [98])) 100)
     \<lparr>file = Some (opened ''books.db'' 14), writePos = 14,
      KeyDir = [[97] \<mapsto> \<lparr>timestamp = 7, writeOffSet = 0, totalSize = 14\<rparr>]\<rparr> =
     Inr (one_file ''books.db''
            (snd (encodeKV LittleEndian 7 [97] [98]) @ snd (encodeKV LittleEndian 8 [97] [99])) 100,
          \<lparr>file = Some (opened ''books.db'' 28), writePos = 28,
           KeyDir = [[97] \<mapsto> \<lparr>timestamp = 8, writeOffSet = 14, totalSize = 14\<rparr>]\<rparr>) \<and>
   length (log_of LittleEndian ([] @ [(7, [97], [98])] @ [(8, [97], [99])])) < 2 ^ 32 \<and>
   (\<exists>d4. Close \<lparr>file = Some (opened ''books.db'' 28), writePos = 28,
           KeyDir = [[97] \<mapsto> \<lparr>timestamp = 8, writeOffSet = 14, totalSize = 14\<rparr>]\<rparr> = Inr d4) \<and>
   (\<exists>d5. NewDiskStore LittleEndian ''books.db''
           (one_file ''books.db''
              (snd (encodeKV LittleEndian 7 [97] [98]) @ snd (encodeKV LittleEndian 8 [97] [99])) 100) =
         Inr (one_file ''books.db''
              (snd (encodeKV LittleEndian 7 [97] [98]) @ snd (encodeKV LittleEndian 8 [97] [99])) 100,
              d5, None) \<and>
      KeyDir d5 = KeyDir \<lparr>file = Some (opened ''books.db'' 28), writePos = 28,
           KeyDir = [[97] \<mapsto> \<lparr>timestamp = 8, writeOffSet = 14, totalSize = 14\<rparr>]\<rparr> \<and>
      writePos d5 = writePos \<lparr>file = Some (opened ''books.db'' 28), writePos = 28,
           KeyDir = [[97] \<mapsto> \<lparr>timestamp = 8, writeOffSet = 14, totalSize = 14\<rparr>]\<rparr> \<and>
      (\<exists>d6. Get LittleEndian [97]
           (one_file ''books.db''
              (snd (encodeKV LittleEndian 7 [97] [98]) @ snd (encodeKV LittleEndian 8 [97] [99])) 100)
           d5 = Inr ([99], d6)))"
proof -
  have empty: "bytes_at (no_files 100) ''books.db'' = log_of LittleEndian []"
    by (simp add: bytes_at_def no_files_def log_of_Nil)
  have short: "length (log_of LittleEndian ([] @ [(7, [97], [98])] @ [(8, [97], [99])])) < 2 ^ 32"
    by (simp add: length_log_of record_size_def headerSize_def)
  note new = NewDiskStore_fresh_store [of LittleEndian "''books.db''" 100]
  have fit: "\<forall>c \<in> set ([] @ [(7, [97], [98])] @ [(8, [97], [99])]). fits c"
    by (simp add: fits_def maxRW_def)
  have one: "record_size (8, [97], [99]) \<le> maxRW"
    by (simp add: record_size_def headerSize_def maxRW_def)
  from persistence_below_wrap [OF empty new run_sets_14 Set_28 short fit one]
    empty new run_sets_14 Set_28 short
  show ?thesis
    by blast
qed

section \<open>C3: opening a log that was cut short\<close>

text \<open>
  C3. The spec asks that opening a log cut in the middle of a record be refused with
  a \<open>RecoveryError\<close>, and the comment on \<^verbatim>\<open>DiskStore\<close> says that start-up ``will
  throw an error if the file is invalid or corrupt''. The code does not: \<^verbatim>\<open>LoadKeys\<close>
  leaves its loop without a word and \<^verbatim>\<open>NewDiskStore\<close> returns a store and no error.
  Here a log of two records is cut behind the key of the second record, and then
  behind the first byte of its value. In the first case the store comes back with the
  second key missing; in the second case it comes back with an entry for the second
  key that ends behind the end of the file, and with \<^verbatim>\<open>writePos\<close> 30 on a file of 29
  bytes.
\<close>

theorem NewDiskStore_truncated_log:
  "log_of LittleEndian [(7, [97], [98, 99]), (9, [100], [101, 102])] =
     [7,0,0,0, 1,0,0,0, 2,0,0,0, 97, 98, 99, 9,0,0,0, 1,0,0,0, 2,0,0,0, 100, 101, 102] \<and>
   NewDiskStore LittleEndian ''books.db''
     (one_file ''books.db''
        [7,0,0,0, 1,0,0,0, 2,0,0,0, 97, 98, 99, 9,0,0,0, 1,0,0,0, 2,0,0,0, 100] 100) =
     Inr (one_file ''books.db''
            [7,0,0,0, 1,0,0,0, 2,0,0,0, 97, 98, 99, 9,0,0,0, 1,0,0,0, 2,0,0,0, 100] 100,
          \<lparr>file = Some (opened ''books.db'' 0), writePos = 15,
           KeyDir = [[97] \<mapsto> \<lparr>timestamp = 7, writeOffSet = 0, totalSize = 15\<rparr>]\<rparr>,
          None) \<and>
   NewDiskStore LittleEndian ''books.db''
     (one_file ''books.db''
        [7,0,0,0, 1,0,0,0, 2,0,0,0, 97, 98, 99, 9,0,0,0, 1,0,0,0, 2,0,0,0, 100, 101] 100) =
     Inr (one_file ''books.db''
            [7,0,0,0, 1,0,0,0, 2,0,0,0, 97, 98, 99, 9,0,0,0, 1,0,0,0, 2,0,0,0, 100, 101] 100,
          \<lparr>file = Some (opened ''books.db'' 0), writePos = 30,
           KeyDir = [[97] \<mapsto> \<lparr>timestamp = 7, writeOffSet = 0, totalSize = 15\<rparr>,
                     [100] \<mapsto> \<lparr>timestamp = 9, writeOffSet = 15, totalSize = 15\<rparr>]\<rparr>,
          None)"
  by (simp add: two_records NewDiskStore_def isFileExists_def LoadKeys_def os_Open_def bytes_at_def
      os_OpenFile_def one_file_def opened_def LoadKeys_loop_cut_after_key LoadKeys_loop_cut_in_value)

section \<open>C4: a write that fails\<close>

text \<open>
  C4, as the spec states it: a failed write leaves the key directory unchanged and
  reaches the caller as a \<open>StorageError\<close>. On a file that cannot grow, the write of
  \<^verbatim>\<open>Set\<close> fails and \<^verbatim>\<open>Set\<close> ends the process with status 1: the caller gets neither
  an error nor a store back.
\<close>

theorem Set_failed_write_counterexample:
  "file_Write (one_file ''books.db'' [] 0) (Some (opened ''books.db'' 0))
     (snd (encodeKV LittleEndian 7 [97] [98])) = Inl ErrNoSpace \<and>
   Set LittleEndian 7 [97] [98] (one_file ''books.db'' [] 0)
     \<lparr>file = Some (opened ''books.db'' 0), writePos = 0, KeyDir = Map.empty\<rparr> = Inl (OsExit 1)"
  by (simp add: Set_def file_Write_def record_14 split_beta one_file_def opened_def)

text \<open>
  C4, amended. When the write of \<^verbatim>\<open>Set\<close> fails, \<^verbatim>\<open>Set\<close> does not return: it ends the
  process with status 1 before it touches the key directory or \<^verbatim>\<open>writePos\<close>. Whenever
  \<^verbatim>\<open>Set\<close> does return, the whole record has been appended to the file, and the key
  directory maps the key to an entry with the timestamp of the call, with the value
  that \<^verbatim>\<open>writePos\<close> had before the call as its offset, and with
  \<open>headerSize + len(key) + len(value)\<close>, as a \<^verbatim>\<open>uint32\<close>, as its size.
\<close>

theorem Set_failed_write_exits:
  "(file_Write w (file d) (snd (encodeKV bo now key val)) = Inl err \<longrightarrow>
      Set bo now key val w d = Inl (OsExit 1)) \<and>
   (Set bo now key val w d = Inr (w', d') \<and> file_bytes w d = Some old \<longrightarrow>
      file_bytes w' d' = Some (old @ snd (encodeKV bo now key val)) \<and>
      KeyDir d' key = Some \<lparr>timestamp = now, writeOffSet = writePos d,
        totalSize = of_nat (headerSize + length key + length val)\<rparr>)"
  by (auto simp add: Set_def file_Write_def file_bytes_def Let_def split_beta fst_encodeKV
      split: option.splits sum.splits if_splits)

theorem Set_failed_write_exits_witness:
  "file_Write (one_file ''books.db'' [] 0) (Some (opened ''books.db'' 0))
     (snd (encodeKV LittleEndian 7 [97] [98])) = Inl ErrNoSpace \<and>
   Set LittleEndian 7 [97] [98] (one_file ''books.db'' [] 0)
     \<lparr>file = Some (opened ''books.db'' 0), writePos = 0, KeyDir = Map.empty\<rparr> = Inl (OsExit 1) \<and>
   Set LittleEndian 7 [97] [98] (one_file ''books.db'' [] 100)
     \<lparr>file = Some (opened ''books.db'' 0), writePos = 0, KeyDir = Map.empty\<rparr> =
     Inr (one_file ''books.db'' (snd (encodeKV LittleEndian 7 [97] [98])) 100,
          \<lparr>file = Some (opened ''books.db'' 14), writePos = 14,
           KeyDir = [[97] \<mapsto> \<lparr>timestamp = 7, writeOffSet = 0, totalSize = 14\<rparr>]\<rparr>) \<and>
   file_bytes (one_file ''books.db'' [] 100)
     \<lparr>file = Some (opened ''books.db'' 0), writePos = 0, KeyDir = Map.empty\<rparr> = Some [] \<and>
   file_bytes (one_file ''books.db'' (snd (encodeKV LittleEndian 7 [97] [98])) 100)
     \<lparr>file = Some (opened ''books.db'' 14), writePos = 14,
      KeyDir = [[97] \<mapsto> \<lparr>timestamp = 7, writeOffSet = 0, totalSize = 14\<rparr>]\<rparr> =
     Some ([] @ snd (encodeKV LittleEndian 7 [97] [98]))"
proof -
  let ?d0 = "\<lparr>file = Some (opened ''books.db'' 0), writePos = 0, KeyDir = Map.empty\<rparr>"
  have fail: "file_Write (one_file ''books.db'' [] 0) (file ?d0)
     (snd (encodeKV LittleEndian 7 [97] [98])) = Inl ErrNoSpace"
    by (simp add: file_Write_def record_14 one_file_def opened_def)
  have ok: "Set LittleEndian 7 [97] [98] (one_file ''books.db'' [] 100) ?d0 =
     Inr (one_file ''books.db'' (snd (encodeKV LittleEndian 7 [97] [98])) 100,
          \<lparr>file = Some (opened ''books.db'' 14), writePos = 14,
           KeyDir = [[97] \<mapsto> \<lparr>timestamp = 7, writeOffSet = 0, totalSize = 14\<rparr>]\<rparr>)"
    using Set_one_file [of "[]" "[97]" "[98]" 100 LittleEndian 7 "''books.db''" 0 0 Map.empty]
    by (simp add: headerSize_def)
  have fb: "file_bytes (one_file ''books.db'' [] 100) ?d0 = Some []"
    by (simp add: file_bytes_def one_file_def opened_def)
  from Set_failed_write_exits [of "one_file ''books.db'' [] 0" ?d0 LittleEndian 7 "[97]" "[98]" ErrNoSpace]
    Set_failed_write_exits [of "one_file ''books.db'' [] 100" ?d0 LittleEndian 7 "[97]" "[98]" _
      "one_file ''books.db'' (snd (encodeKV LittleEndian 7 [97] [98])) 100"
      "\<lparr>file = Some (opened ''books.db'' 14), writePos = 14,
           KeyDir = [[97] \<mapsto> \<lparr>timestamp = 7, writeOffSet = 0, totalSize = 14\<rparr>]\<rparr>" "[]"]
    fail ok fb
  show ?thesis
    by simp
qed

section \<open>C5: the codec round trip\<close>

text \<open>
  C5. Decoding the bytes of an encoded record gives back the time stamp, the key and
  the value, for every key and value whose lengths fit the 32-bit fields of the
  header. The key and the value need not even be non-empty.
\<close>

theorem codec_roundtrip:
  assumes "length key < 2 ^ 32" and "length val < 2 ^ 32"
  shows "decodeKV bo (snd (encodeKV bo ts key val)) = Some (ts, key, val)"
  using assms by (rule decodeKV_encodeKV)

theorem codec_roundtrip_witness:
  "decodeKV LittleEndian (snd (encodeKV LittleEndian 7 [97] [98, 99])) = Some (7, [97], [98, 99])"
  using codec_roundtrip [of "[97]" "[98, 99]" LittleEndian 7] by simp

section \<open>C6: a key that is not there\<close>

text \<open>
  C6. For a key that the key directory does not hold, \<^verbatim>\<open>Get\<close> returns the empty
  string and the store as it was; it neither ends the process nor reports an error.
  This holds in particular for every key on a store that \<^verbatim>\<open>NewDiskStore\<close> has just
  returned for a path where there was no file.
\<close>

theorem Get_miss:
  "(KeyDir d key = None \<longrightarrow> Get bo key w d = Inr ([], d)) \<and>
   (files w fileName = None \<and> NewDiskStore bo fileName w = Inr (w', d', e) \<longrightarrow>
      Get bo key w' d' = Inr ([], d'))"
  by (auto simp add: Get_def NewDiskStore_def isFileExists_def os_OpenFile_def emptyDiskStore_def
      split: if_splits)

theorem Get_miss_witness:
  "KeyDir emptyDiskStore [97] = None \<and>
   Get LittleEndian [97] (no_files 100) emptyDiskStore = Inr ([], emptyDiskStore) \<and>
   files (no_files 100) ''books.db'' = None \<and>
   NewDiskStore LittleEndian ''books.db'' (no_files 100) =
     Inr (one_file ''books.db'' [] 100,
          \<lparr>file = Some (opened ''books.db'' 0), writePos = 0, KeyDir = Map.empty\<rparr>, None) \<and>
   Get LittleEndian [97] (one_file ''books.db'' [] 100)
     \<lparr>file = Some (opened ''books.db'' 0), writePos = 0, KeyDir = Map.empty\<rparr> =
     Inr ([], \<lparr>file = Some (opened ''books.db'' 0), writePos = 0, KeyDir = Map.empty\<rparr>)"
proof -
  have none: "KeyDir emptyDiskStore [97] = None"
    by (simp add: emptyDiskStore_def)
  have nofile: "files (no_files 100) ''books.db'' = None"
    by (simp add: no_files_def)
  show ?thesis
    using Get_miss [of emptyDiskStore "[97]" LittleEndian "no_files 100" "''books.db''"
        "one_file ''books.db'' [] 100"
        "\<lparr>file = Some (opened ''books.db'' 0), writePos = 0, KeyDir = Map.empty\<rparr>" None]
      NewDiskStore_no_files [of LittleEndian "''books.db''" 100] none nofile
    by simp
qed

section \<open>C7: the file only grows, and writePos follows it\<close>

text \<open>
  C7. The spec states that after any sequence of successful calls of \<^verbatim>\<open>Set\<close> on a
  fresh file the size of the file is the sum of the sizes of the records, no byte
  written is written again, and \<^verbatim>\<open>writePos\<close> equals the length of the file; the
  comment on \<^verbatim>\<open>DiskStore\<close> says of the code that a write is to ``write the record to
  the disk'' and to ``update the internal hash table to point to that byte offset'',
  and that offset is \<^verbatim>\<open>writePos\<close>. \<^verbatim>\<open>Set\<close> adds the size of the record to the \<^verbatim>\<open>uint32\<close>
  \<^verbatim>\<open>writePos\<close> without a check. After the five calls below, all of them successful, the
  file has \<open>2^32\<close> bytes and \<^verbatim>\<open>writePos\<close> is 0.
\<close>

theorem writePos_zero_at_four_gibibytes:
  "files (no_files 8589934592) ''books.db'' = None \<and>
   NewDiskStore LittleEndian ''books.db'' (no_files 8589934592) =
     Inr (one_file ''books.db'' [] 8589934592, fresh_store ''books.db'', None) \<and>
   run_sets LittleEndian gib_calls (one_file ''books.db'' [] 8589934592) (fresh_store ''books.db'') =
     Inr (one_file ''books.db'' (log_of LittleEndian gib_calls) 8589934592, gib_store) \<and>
   file_bytes (one_file ''books.db'' (log_of LittleEndian gib_calls) 8589934592) gib_store =
     Some (log_of LittleEndian gib_calls) \<and>
   length (log_of LittleEndian gib_calls) = 4294967296 \<and>
   unat (writePos gib_store) = 0 \<and>
   unat (writePos gib_store) \<noteq> length (log_of LittleEndian gib_calls)"
  by (simp add: NewDiskStore_fresh_store run_sets_gib_store length_gib_log)
     (simp add: no_files_def file_bytes_def gib_store_def one_file_def opened_def)

text \<open>
  The rest of the property holds, and so does the last part below \<open>2^32\<close> bytes.
  After any sequence of successful calls of \<^verbatim>\<open>Set\<close> on a store opened on a fresh file,
  the file is the concatenation of the records of the calls, so that its size is the
  sum of \<open>headerSize + len(key) + len(value)\<close> over the calls; after the first \<open>n\<close>
  calls the file is the concatenation of their records, which stays the beginning of
  the file from then on; and \<^verbatim>\<open>writePos\<close> is the \<^verbatim>\<open>uint32\<close> of the length of the file,
  which is that length as long as the file is shorter than \<open>2^32\<close> bytes.
\<close>

lemma append_only_growth_fresh:
  assumes "files w fileName = None" and "NewDiskStore bo fileName w = Inr (w1, d1, None)"
    and "run_sets bo calls w1 d1 = Inr (w2, d2)"
  shows "file_bytes w2 d2 = Some (log_of bo calls) \<and>
         length (log_of bo calls) = sum_list (map record_size calls) \<and>
         writePos d2 = of_nat (length (log_of bo calls)) \<and>
         (length (log_of bo calls) < 2 ^ 32 \<longrightarrow> unat (writePos d2) = length (log_of bo calls)) \<and>
         (\<exists>wn dn. run_sets bo (take n calls) w1 d1 = Inr (wn, dn) \<and>
            file_bytes wn dn = Some (log_of bo (take n calls)) \<and>
            log_of bo calls = log_of bo (take n calls) @ log_of bo (drop n calls))"
proof -
  note all = run_sets_fresh [OF assms]
  have "run_sets bo (take n calls @ drop n calls) w1 d1 = Inr (w2, d2)"
    using assms(3) by simp
  then obtain wn dn where n: "run_sets bo (take n calls) w1 d1 = Inr (wn, dn)"
    unfolding run_sets_append by (auto split: sum.splits)
  have fn: "file_bytes wn dn = Some (log_of bo (take n calls))"
    by (rule run_sets_fresh(1) [OF assms(1,2) n])
  have split: "log_of bo calls = log_of bo (take n calls) @ log_of bo (drop n calls)"
    using log_of_append [of bo "take n calls" "drop n calls"] by simp
  have u: "length (log_of bo calls) < 2 ^ 32 \<longrightarrow> unat (writePos d2) = length (log_of bo calls)"
    by (simp add: all(2) unat_of_nat32)
  have len: "length (log_of bo calls) = sum_list (map record_size calls)"
    by (rule length_log_of)
  from all(1) len all(2) u n fn split show ?thesis
    by blast
qed

lemma append_only_growth_fresh_example:
  "files (no_files 100) ''books.db'' = None \<and>
   NewDiskStore LittleEndian ''books.db'' (no_files 100) =
     Inr (one_file ''books.db'' [] 100, fresh_store ''books.db'', None) \<and>
   run_sets LittleEndian [(7, [97], [98]), (8, [97], [99])] (one_file ''books.db'' [] 100)
     (fresh_store ''books.db'') =
     Inr (one_file ''books.db''
            (snd (encodeKV LittleEndian 7 [97] [98]) @ snd (encodeKV LittleEndian 8 [97] [99])) 100,
          \<lparr>file = Some (opened ''books.db'' 28), writePos = 28,
           KeyDir = [[97] \<mapsto> \<lparr>timestamp = 8, writeOffSet = 14, totalSize = 14\<rparr>]\<rparr>) \<and>
   length (log_of LittleEndian [(7, [97], [98]), (8, [97], [99])]) < 2 ^ 32 \<and>
   file_bytes
     (one_file ''books.db''
        (snd (encodeKV LittleEndian 7 [97] [98]) @ snd (encodeKV LittleEndian 8 [97] [99])) 100)
     \<lparr>file = Some (opened ''books.db'' 28), writePos = 28,
      KeyDir = [[97] \<mapsto> \<lparr>timestamp = 8, writeOffSet = 14, totalSize = 14\<rparr>]\<rparr> =
     Some (log_of LittleEndian [(7, [97], [98]), (8, [97], [99])]) \<and>
   length (log_of LittleEndian [(7, [97], [98]), (8, [97], [99])]) =
     sum_list (map record_size [(7, [97], [98]), (8, [97], [99])]) \<and>
   unat (writePos \<lparr>file = Some (opened ''books.db'' 28), writePos = 28,
      KeyDir = [[97] \<mapsto> \<lparr>timestamp = 8, writeOffSet = 14, totalSize = 14\<rparr>]\<rparr>) =
     length (log_of LittleEndian [(7, [97], [98]), (8, [97], [99])]) \<and>
   (\<exists>wn dn. run_sets LittleEndian (take 1 [(7, [97], [98]), (8, [97], [99])])
        (one_file ''books.db'' [] 100) (fresh_store ''books.db'') = Inr (wn, dn) \<and>
      file_bytes wn dn = Some (log_of LittleEndian (take 1 [(7, [97], [98]), (8, [97], [99])])) \<and>
      log_of LittleEndian [(7, [97], [98]), (8, [97], [99])] =
        log_of LittleEndian (take 1 [(7, [97], [98]), (8, [97], [99])]) @
        log_of LittleEndian (drop 1 [(7, [97], [98]), (8, [97], [99])]))"
proof -
  have nofile: "files (no_files 100) ''books.db'' = None"
    by (simp add: no_files_def)
  have short: "length (log_of LittleEndian [(7, [97], [98]), (8, [97], [99])]) < 2 ^ 32"
    by (simp add: length_log_of record_size_def headerSize_def)
  note new = NewDiskStore_fresh_store [of LittleEndian "''books.db''" 100]
  from append_only_growth_fresh [OF nofile new run_sets_28, of 1] nofile new run_sets_28 short
  show ?thesis
    by blast
qed

section \<open>C8: the empty value and the missing key\<close>

text \<open>
  C8. The spec states that on every open store, after a successful \<^verbatim>\<open>Set(k, "")\<close>,
  \<^verbatim>\<open>Get(k)\<close> returns the empty string, as it does for a key that is not there; the
  comment on \<^verbatim>\<open>DiskStore\<close> says of a read: ``check the internal hash table for the
  address, fetch that and return''. In the session below \<^verbatim>\<open>Set("ab", "")\<close> follows the five
  calls that wrote \<open>2^32\<close> bytes to a fresh file. The \<^verbatim>\<open>uint32\<close> \<^verbatim>\<open>writePos\<close> has
  wrapped around to 0, the record of 14 bytes is entered at offset 0, and \<^verbatim>\<open>Get("ab")\<close>
  returns \<open>y\<close>, the value of the record of 14 bytes with which the file begins, and
  not the empty string.
\<close>

theorem empty_value_after_wrap_reads_first_record:
  "session LittleEndian ''books.db'' (gib_calls @ [(6, [97, 98], [])]) [97, 98] (no_files 8589934592) =
     Inr [121] \<and>
   session LittleEndian ''books.db'' (gib_calls @ [(6, [97, 98], [])]) [97, 98] (no_files 8589934592) \<noteq>
     Inr []"
  by (simp add: session_gib_ab)

text \<open>
  Below that size the two cases cannot be told apart. On an open store whose
  \<^verbatim>\<open>writePos\<close> is the length of its file, as long as the file stays shorter than \<open>2^32\<close>
  bytes after the append and the record is short enough for the single \<^verbatim>\<open>Read\<close> of
  \<^verbatim>\<open>Get\<close>: after \<^verbatim>\<open>Set(k, "")\<close>, \<^verbatim>\<open>Get(k)\<close> returns the empty string, which is also what
  \<^verbatim>\<open>Get\<close> returns for a key that the key directory does not hold.
\<close>

lemma empty_value_collision_below_wrap:
  assumes "store_ok w d" and "file_bytes w d = Some old"
    and "length old + record_size (now, key, []) < 2 ^ 32"
    and "Set bo now key [] w d = Inr (w1, d1)"
    and "record_size (now, key, []) \<le> maxRW"
  shows "(\<exists>d2. Get bo key w1 d1 = Inr ([], d2)) \<and>
         (KeyDir d1 other = None \<longrightarrow> Get bo other w1 d1 = Inr ([], d1))"
proof -
  note s = Set_store_ok [OF assms(1-4)]
  have e: "KeyDir d1 key = Some \<lparr>timestamp = now, writeOffSet = writePos d,
            totalSize = of_nat (record_size (now, key, []))\<rparr>"
    by (simp add: s(3))
  have "\<exists>d2. Get bo key w1 d1 = Inr ([], d2)"
    using s(1,2) e s(4,5) assms(5) by (rule Get_last_record)
  moreover have "KeyDir d1 other = None \<longrightarrow> Get bo other w1 d1 = Inr ([], d1)"
    by (simp add: Get_def)
  ultimately show ?thesis by simp
qed

lemma empty_value_collision_below_wrap_example:
  "store_ok (one_file ''books.db'' [] 100) (fresh_store ''books.db'') \<and>
   file_bytes (one_file ''books.db'' [] 100) (fresh_store ''books.db'') = Some [] \<and>
   Set LittleEndian 7 [97] [] (one_file ''books.db'' [] 100) (fresh_store ''books.db'') =
     Inr (one_file ''books.db'' (snd (encodeKV LittleEndian 7 [97] [])) 100,
          \<lparr>file = Some (opened ''books.db'' 13), writePos = 13,
           KeyDir = [[97] \<mapsto> \<lparr>timestamp = 7, writeOffSet = 0, totalSize = 13\<rparr>]\<rparr>) \<and>
   (\<exists>d2. Get LittleEndian [97] (one_file ''books.db'' (snd (encodeKV LittleEndian 7 [97] [])) 100)
      \<lparr>file = Some (opened ''books.db'' 13), writePos = 13,
       KeyDir = [[97] \<mapsto> \<lparr>timestamp = 7, writeOffSet = 0, totalSize = 13\<rparr>]\<rparr> = Inr ([], d2)) \<and>
   KeyDir \<lparr>file = Some (opened ''books.db'' 13), writePos = 13,
       KeyDir = [[97] \<mapsto> \<lparr>timestamp = 7, writeOffSet = 0, totalSize = 13\<rparr>]\<rparr> [98] = None \<and>
   Get LittleEndian [98] (one_file ''books.db'' (snd (encodeKV LittleEndian 7 [97] [])) 100)
      \<lparr>file = Some (opened ''books.db'' 13), writePos = 13,
       KeyDir = [[97] \<mapsto> \<lparr>timestamp = 7, writeOffSet = 0, totalSize = 13\<rparr>]\<rparr> =
     Inr ([], \<lparr>file = Some (opened ''books.db'' 13), writePos = 13,
       KeyDir = [[97] \<mapsto> \<lparr>timestamp = 7, writeOffSet = 0, totalSize = 13\<rparr>]\<rparr>)"
proof -
  have ok: "store_ok (one_file ''books.db'' [] 100) (fresh_store ''books.db'')"
    by (simp add: fresh_store_def store_ok_one_file)
  have fb: "file_bytes (one_file ''books.db'' [] 100) (fresh_store ''books.db'') = Some []"
    by (simp add: fresh_store_def file_bytes_one_file)
  have len: "length ([] :: bytes) + record_size (7, [97], []) < 2 ^ 32"
    by (simp add: record_size_def headerSize_def)
  have one: "record_size (7, [97], []) \<le> maxRW"
    by (simp add: record_size_def headerSize_def maxRW_def)
  from empty_value_collision_below_wrap [OF ok fb len Set_13 one, of "[98]"] ok fb Set_13
  show ?thesis
    by simp
qed

section \<open>C9: the key directory stays within the written part\<close>

text \<open>
  C9. The claim is that in every store reached by \<^verbatim>\<open>NewDiskStore\<close> and successful
  calls of \<^verbatim>\<open>Set\<close>, every entry of the key directory satisfies
  \<open>writeOffSet + totalSize \<le> writePos\<close>, so that every record the key directory
  points to lies within the part of the file that is written; the comment on
  \<^verbatim>\<open>DiskStore\<close> says of the code that the key directory ``keeps the row's location on
  the disk''. The code does not keep the bound. \<^verbatim>\<open>Set\<close> adds the size of each record
  to the \<^verbatim>\<open>uint32\<close> \<^verbatim>\<open>writePos\<close> without a check: after the five successful calls that
  write \<open>2^32\<close> bytes to a fresh file, \<^verbatim>\<open>writePos\<close> is 0 while the entry of the key
  \<open>a\<close> has offset 0 and size 14. And where the bound holds, the record need not lie
  within the file: \<^verbatim>\<open>LoadKeys\<close> drops the number of bytes that the read of the value
  returned, so that on the log of two records cut to 29 bytes, behind the first byte
  of the second value, \<^verbatim>\<open>NewDiskStore\<close> returns a store whose entry for the second key
  has offset 15 and size 15 and whose \<^verbatim>\<open>writePos\<close> is 30.
\<close>

theorem KeyDir_entry_beyond_writePos:
  "NewDiskStore LittleEndian ''books.db'' (no_files 8589934592) =
     Inr (one_file ''books.db'' [] 8589934592, fresh_store ''books.db'', None) \<and>
   run_sets LittleEndian gib_calls (one_file ''books.db'' [] 8589934592) (fresh_store ''books.db'') =
     Inr (one_file ''books.db'' (log_of LittleEndian gib_calls) 8589934592, gib_store) \<and>
   KeyDir gib_store [97] = Some \<lparr>timestamp = 1, writeOffSet = 0, totalSize = 14\<rparr> \<and>
   writePos gib_store = 0 \<and>
   (\<exists>e. KeyDir gib_store [97] = Some e \<and>
      unat (writePos gib_store) < unat (writeOffSet e) + unat (totalSize e)) \<and>
   length ([7,0,0,0, 1,0,0,0, 2,0,0,0, 97, 98, 99, 9,0,0,0, 1,0,0,0, 2,0,0,0, 100, 101] :: bytes) = 29 \<and>
   NewDiskStore LittleEndian ''books.db''
     (one_file ''books.db''
        [7,0,0,0, 1,0,0,0, 2,0,0,0, 97, 98, 99, 9,0,0,0, 1,0,0,0, 2,0,0,0, 100, 101] 100) =
     Inr (one_file ''books.db''
            [7,0,0,0, 1,0,0,0, 2,0,0,0, 97, 98, 99, 9,0,0,0, 1,0,0,0, 2,0,0,0, 100, 101] 100,
          \<lparr>file = Some (opened ''books.db'' 0), writePos = 30,
           KeyDir = [[97] \<mapsto> \<lparr>timestamp = 7, writeOffSet = 0, totalSize = 15\<rparr>,
                     [100] \<mapsto> \<lparr>timestamp = 9, writeOffSet = 15, totalSize = 15\<rparr>]\<rparr>,
          None)"
proof -
  have e: "KeyDir gib_store [97] = Some \<lparr>timestamp = 1, writeOffSet = 0, totalSize = 14\<rparr>"
    by (simp add: gib_store_def)
  have p: "writePos gib_store = 0"
    by (simp add: gib_store_def)
  have "NewDiskStore LittleEndian ''books.db''
     (one_file ''books.db''
        [7,0,0,0, 1,0,0,0, 2,0,0,0, 97, 98, 99, 9,0,0,0, 1,0,0,0, 2,0,0,0, 100, 101] 100) =
     Inr (one_file ''books.db''
            [7,0,0,0, 1,0,0,0, 2,0,0,0, 97, 98, 99, 9,0,0,0, 1,0,0,0, 2,0,0,0, 100, 101] 100,
          \<lparr>file = Some (opened ''books.db'' 0), writePos = 30,
           KeyDir = [[97] \<mapsto> \<lparr>timestamp = 7, writeOffSet = 0, totalSize = 15\<rparr>,
                     [100] \<mapsto> \<lparr>timestamp = 9, writeOffSet = 15, totalSize = 15\<rparr>]\<rparr>,
          None)"
    by (simp add: NewDiskStore_def isFileExists_def LoadKeys_def os_Open_def bytes_at_def
        os_OpenFile_def one_file_def opened_def LoadKeys_loop_cut_in_value)
  then show ?thesis
    using e p by (simp add: NewDiskStore_fresh_store run_sets_gib_store)
qed

text \<open>
  So the store after the five calls does not satisfy the bound.
\<close>

lemma gib_store_not_index_bounds: "\<not> index_bounds gib_store"
proof
  assume "index_bounds gib_store"
  moreover have "\<lparr>timestamp = 1, writeOffSet = 0, totalSize = 14\<rparr> \<in> ran (KeyDir gib_store)"
    by (rule ranI [of _ "[97]"]) (simp add: gib_store_def)
  ultimately have "unat (writeOffSet \<lparr>timestamp = 1, writeOffSet = 0, totalSize = 14 :: uint32\<rparr>) +
      unat (totalSize \<lparr>timestamp = 1, writeOffSet = 0 :: uint32, totalSize = 14 :: uint32\<rparr>) \<le>
      unat (writePos gib_store)"
    unfolding index_bounds_def by blast
  then show False by (simp add: gib_store_def)
qed

text \<open>
  As long as \<^verbatim>\<open>writePos\<close> has not wrapped around, the bound itself holds: in every
  store that \<^verbatim>\<open>NewDiskStore\<close> returns and in every store reached from it by successful
  calls of \<^verbatim>\<open>Set\<close>, every entry satisfies \<open>writeOffSet + totalSize \<le> writePos\<close>,
  provided the sizes that recovery adds to \<^verbatim>\<open>writePos\<close> and the sizes of the records
  written after that stay below \<open>2^32\<close> in sum. This is a bound against \<^verbatim>\<open>writePos\<close>
  only; on a log that was cut short \<^verbatim>\<open>writePos\<close> can lie behind the end of the file.
\<close>

lemma index_bounds_below_wrap:
  assumes "NewDiskStore bo fileName w = Inr (w1, d1, e)"
    and "run_sets bo calls w1 d1 = Inr (w2, d2)"
    and "LoadKeys_span bo (bytes_at w fileName) 0 + length (log_of bo calls) < 2 ^ 32"
  shows "index_bounds d1 \<and> index_bounds d2"
proof -
  let ?l = "LoadKeys_loop bo (bytes_at w fileName) 0 emptyDiskStore"
  have b0: "index_bounds emptyDiskStore"
    by (simp add: index_bounds_def emptyDiskStore_def)
  have p0: "unat (writePos emptyDiskStore) + LoadKeys_span bo (bytes_at w fileName) 0 < 2 ^ 32"
    using assms(3) by (simp add: emptyDiskStore_def)
  from index_bounds_LoadKeys_loop [OF b0 p0]
  have bl: "index_bounds ?l" and pl: "unat (writePos ?l) = LoadKeys_span bo (bytes_at w fileName) 0"
    by (simp_all add: emptyDiskStore_def)
  from NewDiskStore_index [OF assms(1)]
  have b1: "index_bounds d1 \<and> unat (writePos d1) \<le> LoadKeys_span bo (bytes_at w fileName) 0"
  proof
    assume "KeyDir d1 = Map.empty \<and> writePos d1 = 0"
    then show ?thesis by (simp add: index_bounds_def)
  next
    assume "KeyDir d1 = KeyDir ?l \<and> writePos d1 = writePos ?l"
    with bl pl show ?thesis by (simp add: index_bounds_def)
  qed
  with assms(3) have "unat (writePos d1) + length (log_of bo calls) < 2 ^ 32"
    by simp
  with assms(2) b1 have "index_bounds d2"
    by (intro index_bounds_run_sets [of bo calls w1 d1 w2 d2]) simp_all
  with b1 show ?thesis by simp
qed

lemma index_bounds_below_wrap_example:
  "NewDiskStore LittleEndian ''books.db'' (no_files 100) =
     Inr (one_file ''books.db'' [] 100, fresh_store ''books.db'', None) \<and>
   run_sets LittleEndian [(7, [97], [98])] (one_file ''books.db'' [] 100) (fresh_store ''books.db'') =
     Inr (one_file ''books.db'' (snd (encodeKV LittleEndian 7 [97] [98])) 100,
          \<lparr>file = Some (opened ''books.db'' 14), writePos = 14,
           KeyDir = [[97] \<mapsto> \<lparr>timestamp = 7, writeOffSet = 0, totalSize = 14\<rparr>]\<rparr>) \<and>
   LoadKeys_span LittleEndian (bytes_at (no_files 100) ''books.db'') 0 +
     length (log_of LittleEndian [(7, [97], [98])]) < 2 ^ 32 \<and>
   index_bounds (fresh_store ''books.db'') \<and>
   index_bounds \<lparr>file = Some (opened ''books.db'' 14), writePos = 14,
           KeyDir = [[97] \<mapsto> \<lparr>timestamp = 7, writeOffSet = 0, totalSize = 14\<rparr>]\<rparr>"
proof -
  have nowrap: "LoadKeys_span LittleEndian (bytes_at (no_files 100) ''books.db'') 0 +
     length (log_of LittleEndian [(7, [97], [98])]) < 2 ^ 32"
    by (simp add: bytes_at_def no_files_def LoadKeys_span_end length_log_of record_size_def
        headerSize_def)
  note new = NewDiskStore_fresh_store [of LittleEndian "''books.db''" 100]
  from index_bounds_below_wrap [OF new run_sets_14 nowrap] new run_sets_14 nowrap
  show ?thesis
    by blast
qed

text \<open>
  On a fresh file, and on a file that holds the log of earlier calls of \<^verbatim>\<open>Set\<close> whole,
  with no key and no value longer than a single \<^verbatim>\<open>Read\<close> takes, the bound is a bound
  against the file: as long as the file stays shorter than \<open>2^32\<close> bytes, the store
  that \<^verbatim>\<open>NewDiskStore\<close> returns and every store reached from it by successful calls of
  \<^verbatim>\<open>Set\<close> satisfy the bound, and \<^verbatim>\<open>writePos\<close> is the length of the file.
\<close>

lemma index_within_file:
  assumes "bytes_at w fileName = log_of bo calls0"
    and "\<forall>c \<in> set calls0. fits c"
    and "NewDiskStore bo fileName w = Inr (w1, d1, None)"
    and "run_sets bo calls w1 d1 = Inr (w2, d2)"
    and "length (log_of bo (calls0 @ calls)) < 2 ^ 32"
  shows "index_bounds d1 \<and> index_bounds d2 \<and>
         file_bytes w2 d2 = Some (log_of bo (calls0 @ calls)) \<and>
         unat (writePos d2) = length (log_of bo (calls0 @ calls))"
proof -
  let ?h0 = "\<lparr>hpath = fileName, hpos = 0, hopen = True\<rparr>"
  let ?all = "calls0 @ calls"
  from assms(1,3,2) obtain node1 where n1: "files w1 fileName = Some node1"
    "bytes node1 = log_of bo calls0"
    and d1: "d1 = \<lparr>file = Some ?h0, writePos = snd (replay calls0 Map.empty 0),
               KeyDir = fst (replay calls0 Map.empty 0)\<rparr>"
    by (rule NewDiskStore_log)
  have b0: "index_bounds \<lparr>file = Some ?h0, writePos = 0, KeyDir = Map.empty\<rparr>"
    by (simp add: index_bounds_def)
  from assms(5) have len0: "unat (0 :: uint32) + length (log_of bo calls0) < 2 ^ 32"
    by (simp add: log_of_append)
  from index_bounds_replay [OF b0 len0] have b1: "index_bounds d1"
    by (simp add: d1)
  have p1: "unat (writePos d1) = length (log_of bo calls0)"
    using len0 by (simp add: d1 snd_replay [where bo = bo] unat_of_nat32)
  from assms(5) p1 have len1: "unat (writePos d1) + length (log_of bo calls) < 2 ^ 32"
    by (simp add: log_of_append)
  from assms(4) b1 len1 have b2: "index_bounds d2"
    by (rule index_bounds_run_sets)
  have f1: "file d1 = Some ?h0"
    by (simp add: d1)
  have w1: "files w1 (hpath ?h0) = Some node1"
    by (simp add: n1)
  note r = run_sets_Inr [OF assms(4) f1 w1]
  from r obtain h' where h': "file d2 = Some h'" "hpath h' = fileName"
    by auto
  from r have "files w2 = (files w1)(hpath ?h0 \<mapsto> node1\<lparr>bytes := bytes node1 @ log_of bo calls\<rparr>)"
    by blast
  then have w2: "files w2 fileName = Some (node1\<lparr>bytes := bytes node1 @ log_of bo calls\<rparr>)"
    by simp
  have fb: "file_bytes w2 d2 = Some (log_of bo ?all)"
    by (simp add: file_bytes_def h' w2 n1 log_of_append)
  from r have "writePos d2 = snd (replay calls (KeyDir d1) (writePos d1))"
    by blast
  then have "writePos d2 = of_nat (length (log_of bo ?all))"
    by (simp add: d1 snd_replay [where bo = bo] log_of_append)
  with assms(5) have p2: "unat (writePos d2) = length (log_of bo ?all)"
    by (simp add: unat_of_nat32)
  from b1 b2 fb p2 show ?thesis
    by blast
qed

lemma index_within_file_example:
  "index_bounds \<lparr>file = Some (opened ''books.db'' 0), writePos = 14,
      KeyDir = [[97] \<mapsto> \<lparr>timestamp = 7, writeOffSet = 0, totalSize = 14\<rparr>]\<rparr> \<and>
   index_bounds \<lparr>file = Some (opened ''books.db'' 28), writePos = 28,
      KeyDir = [[97] \<mapsto> \<lparr>timestamp = 8, writeOffSet = 14, totalSize = 14\<rparr>]\<rparr> \<and>
   file_bytes (one_file ''books.db'' (snd (encodeKV LittleEndian 7 [97] [98]) @ snd (encodeKV LittleEndian 8 [97] [99])) 100)
     \<lparr>file = Some (opened ''books.db'' 28), writePos = 28,
      KeyDir = [[97] \<mapsto> \<lparr>timestamp = 8, writeOffSet = 14, totalSize = 14\<rparr>]\<rparr> =
     Some (log_of LittleEndian ([(7, [97], [98])] @ [(8, [97], [99])]))"
proof -
  let ?w = "one_file ''books.db'' (snd (encodeKV LittleEndian 7 [97] [98])) 100"
  let ?d1 = "\<lparr>file = Some (opened ''books.db'' 0), writePos = 14,
      KeyDir = [[97] \<mapsto> \<lparr>timestamp = 7, writeOffSet = 0, totalSize = 14\<rparr>]\<rparr>"
  let ?d2 = "\<lparr>file = Some (opened ''books.db'' 28), writePos = 28,
      KeyDir = [[97] \<mapsto> \<lparr>timestamp = 8, writeOffSet = 14, totalSize = 14\<rparr>]\<rparr>"
  have log: "bytes_at ?w ''books.db'' = log_of LittleEndian [(7, [97], [98])]"
    by (simp add: bytes_at_def one_file_def log_of_def record_of_def)
  have fit: "\<forall>c \<in> set [(7 :: uint32, [97 :: byte], [98 :: byte])]. fits c"
    by (simp add: fits_def maxRW_def)
  have new: "NewDiskStore LittleEndian ''books.db'' ?w = Inr (?w, ?d1, None)"
    using reopen_log [of ?w "''books.db''"
        "\<lparr>bytes = snd (encodeKV LittleEndian 7 [97] [98]), readable = True, writable = True\<rparr>"
        LittleEndian "[(7, [97], [98])]"] fit
    by (simp add: one_file_def opened_def log_of_def record_of_def headerSize_def)
  have run: "run_sets LittleEndian [(8, [97], [99])] ?w ?d1 =
      Inr (one_file ''books.db'' (snd (encodeKV LittleEndian 7 [97] [98]) @ snd (encodeKV LittleEndian 8 [97] [99])) 100, ?d2)"
    using Set_one_file [of "snd (encodeKV LittleEndian 7 [97] [98])" "[97]" "[99]" 100 LittleEndian 8
      "''books.db''" 0 14 "[[97] \<mapsto> \<lparr>timestamp = 7, writeOffSet = 0, totalSize = 14\<rparr>]"]
    by (simp add: headerSize_def length_encodeKV)
  have short: "length (log_of LittleEndian ([(7, [97], [98])] @ [(8, [97], [99])])) < 2 ^ 32"
    by (simp add: length_log_of record_size_def headerSize_def)
  from index_within_file [OF log fit new run short] show ?thesis
    by simp
qed

section \<open>C10: looking up a key changes nothing\<close>

text \<open>
  C10. Whenever \<^verbatim>\<open>Get\<close> returns, for a key that is present or not, the key directory
  and \<^verbatim>\<open>writePos\<close> are what they were, and a following \<^verbatim>\<open>Set\<close> does exactly what it
  would have done without the \<^verbatim>\<open>Get\<close>: only the offset of the open file has moved,
  and a write in append mode does not look at it. \<^verbatim>\<open>Get\<close> has no access to the
  bytes of the file other than reading them.
\<close>

theorem Get_read_only:
  assumes "Get bo key w d = Inr (val, d')"
  shows "KeyDir d' = KeyDir d \<and> writePos d' = writePos d \<and>
         Set bo now k v w d' = Set bo now k v w d"
  using assms
  by (auto simp add: Get_def Set_def file_Seek_def file_Read_def file_Write_def Let_def split_beta
      split: option.splits sum.splits if_splits prod.splits)

theorem Get_read_only_witness:
  "Get LittleEndian [97] (one_file ''books.db'' [7,0,0,0, 1,0,0,0, 1,0,0,0, 97, 98] 100)
     \<lparr>file = Some (opened ''books.db'' 0), writePos = 14,
      KeyDir = [[97] \<mapsto> \<lparr>timestamp = 7, writeOffSet = 0, totalSize = 14\<rparr>]\<rparr> =
     Inr ([98], \<lparr>file = Some (opened ''books.db'' 14), writePos = 14,
      KeyDir = [[97] \<mapsto> \<lparr>timestamp = 7, writeOffSet = 0, totalSize = 14\<rparr>]\<rparr>) \<and>
   Set LittleEndian 8 [99] [100] (one_file ''books.db'' [7,0,0,0, 1,0,0,0, 1,0,0,0, 97, 98] 100)
     \<lparr>file = Some (opened ''books.db'' 14), writePos = 14,
      KeyDir = [[97] \<mapsto> \<lparr>timestamp = 7, writeOffSet = 0, totalSize = 14\<rparr>]\<rparr> =
   Set LittleEndian 8 [99] [100] (one_file ''books.db'' [7,0,0,0, 1,0,0,0, 1,0,0,0, 97, 98] 100)
     \<lparr>file = Some (opened ''books.db'' 0), writePos = 14,
      KeyDir = [[97] \<mapsto> \<lparr>timestamp = 7, writeOffSet = 0, totalSize = 14\<rparr>]\<rparr>"
proof -
  let ?w = "one_file ''books.db'' [7,0,0,0, 1,0,0,0, 1,0,0,0, 97, 98] 100"
  let ?d = "\<lparr>file = Some (opened ''books.db'' 0), writePos = 14,
      KeyDir = [[97] \<mapsto> \<lparr>timestamp = 7, writeOffSet = 0, totalSize = 14\<rparr>]\<rparr>"
  have g: "Get LittleEndian [97] ?w ?d =
     Inr ([98], \<lparr>file = Some (opened ''books.db'' 14), writePos = 14,
      KeyDir = [[97] \<mapsto> \<lparr>timestamp = 7, writeOffSet = 0, totalSize = 14\<rparr>]\<rparr>)"
    using Get_hit [of ?d "[97]" "\<lparr>timestamp = 7, writeOffSet = 0, totalSize = 14\<rparr>" "opened ''books.db'' 0"
        ?w "\<lparr>bytes = [7,0,0,0, 1,0,0,0, 1,0,0,0, 97, 98], readable = True, writable = True\<rparr>"
        "[]" LittleEndian 7 "[97]" "[98]" "[]"]
    by (simp add: record_14 one_file_def opened_def headerSize_def maxRW_def)
  from Get_read_only [OF g, of 8 "[99]" "[100]"] g show ?thesis
    by simp
qed

end
